theory Spec2Isabelle
  imports Complex_Main "HOL-Library.Word"
begin

section \<open>The EM driver (bam\_driver.cc, lines 69--83)\<close>

text \<open>
  The driver fits the sequencing error rate of a \<open>TrioModel\<close> to the pile-up sites:
  \<^verbatim>\<open>
  72  stats.Update(params, sites);
  75  int count = 0;
  76  double maximized = stats.MaxSequencingErrorRate();
  77  while (!Equal(params.sequencing_error_rate(), maximized)) {
  78    params.set_sequencing_error_rate(maximized);
  79    stats.Clear();
  80    stats.Update(params, sites);
  81    maximized = stats.MaxSequencingErrorRate();
  82    count++;
  83  }
  85  cout << ... params.sequencing_error_rate() ...
  \<close>
  The bodies of \<open>Update\<close>, \<open>MaxSequencingErrorRate\<close>, \<open>Clear\<close>, the accessor pair of
  the rate and \<open>Equal\<close> live in files the driver only includes, so the embedding takes them
  as the fields of a record of operations over abstract types: \<open>'p\<close> the model object,
  \<open>'s\<close> the statistics accumulator, \<open>'r\<close> the type of a rate (\<open>double\<close>) and \<open>'v\<close> the
  site vector. \<open>Update\<close> receives the model by reference (the probability it evaluates per
  site is a non-const member of \<open>TrioModel\<close>), so it returns the model as well as the
  accumulator.
\<close>

text \<open>The operations the driver calls, in the order of their first use.\<close>

record ('p, 's, 'r, 'v) em_ops =
  Update :: "'p \<Rightarrow> 'v \<Rightarrow> 's \<Rightarrow> 'p \<times> 's"
  MaxSequencingErrorRate :: "'s \<Rightarrow> 'r"
  Clear :: "'s \<Rightarrow> 's"
  sequencing_error_rate :: "'p \<Rightarrow> 'r"
  set_sequencing_error_rate :: "'r \<Rightarrow> 'p \<Rightarrow> 'p"
  Equal :: "'r \<Rightarrow> 'r \<Rightarrow> bool"

text \<open>
  A program point of lines 72--85. \<open>Init_E\<close>, \<open>Init_Count\<close> and \<open>Init_M\<close> are lines 72, 75
  and 76; \<open>Test\<close> is the loop condition of line 77; \<open>Install\<close>, \<open>Reset\<close>, \<open>E_Step\<close>,
  \<open>M_Step\<close> and \<open>Incr\<close> are lines 78 to 82; \<open>Converged\<close> is line 85, after the loop.
\<close>

datatype pc = Init_E | Init_Count | Init_M | Test | Install | Reset | E_Step | M_Step
  | Incr | Converged

text \<open>The variables of \<open>main\<close> that the loop reads and writes; \<open>count\<close> is a C++ \<open>int\<close>.\<close>

record ('p, 's, 'r) driver =
  pc :: pc
  params :: 'p
  stats :: 's
  maximized :: 'r
  count :: "32 word"

text \<open>The negation of the loop condition: \<open>Equal(params.sequencing_error_rate(), maximized)\<close>.\<close>

definition converged :: "('p, 's, 'r, 'v) em_ops \<Rightarrow> ('p, 's, 'r) driver \<Rightarrow> bool" where
  "converged ops d = Equal ops (sequencing_error_rate ops (params d)) (maximized d)"

text \<open>One statement of the driver, executed at its program point.\<close>

definition step ::
  "('p, 's, 'r, 'v) em_ops \<Rightarrow> 'v \<Rightarrow> ('p, 's, 'r) driver \<Rightarrow> ('p, 's, 'r) driver" where
  "step ops sites d =
     (case pc d of
        Init_E \<Rightarrow>
          (case Update ops (params d) sites (stats d) of
             (p, s) \<Rightarrow> d\<lparr>pc := Init_Count, params := p, stats := s\<rparr>)
      | Init_Count \<Rightarrow> d\<lparr>pc := Init_M, count := 0\<rparr>
      | Init_M \<Rightarrow> d\<lparr>pc := Test, maximized := MaxSequencingErrorRate ops (stats d)\<rparr>
      | Test \<Rightarrow> if converged ops d then d\<lparr>pc := Converged\<rparr> else d\<lparr>pc := Install\<rparr>
      | Install \<Rightarrow>
          d\<lparr>pc := Reset, params := set_sequencing_error_rate ops (maximized d) (params d)\<rparr>
      | Reset \<Rightarrow> d\<lparr>pc := E_Step, stats := Clear ops (stats d)\<rparr>
      | E_Step \<Rightarrow>
          (case Update ops (params d) sites (stats d) of
             (p, s) \<Rightarrow> d\<lparr>pc := M_Step, params := p, stats := s\<rparr>)
      | M_Step \<Rightarrow> d\<lparr>pc := Incr, maximized := MaxSequencingErrorRate ops (stats d)\<rparr>
      | Incr \<Rightarrow> d\<lparr>pc := Test, count := count d + 1\<rparr>
      | Converged \<Rightarrow> d)"

text \<open>
  The driver from a program point on. The loop has no other exit than its condition, so the
  run is a partial function: \<open>None\<close> is the run that never leaves the loop.
\<close>

partial_function (option) run ::
  "('p, 's, 'r, 'v) em_ops \<Rightarrow> 'v \<Rightarrow> ('p, 's, 'r) driver \<Rightarrow> ('p, 's, 'r) driver option" where
  "run ops sites d = (if pc d = Converged then Some d else run ops sites (step ops sites d))"

text \<open>
  The same statements in big steps: \<open>em_start\<close> is lines 72--76 (the first E-step and
  M-step), \<open>em_body\<close> is one pass through the loop body, lines 78--82, and \<open>em_iter k\<close> is
  the state at the loop condition after \<open>k\<close> passes.
\<close>

definition em_start ::
  "('p, 's, 'r, 'v) em_ops \<Rightarrow> 'v \<Rightarrow> ('p, 's, 'r) driver \<Rightarrow> ('p, 's, 'r) driver" where
  "em_start ops sites d =
     (case Update ops (params d) sites (stats d) of
        (p, s) \<Rightarrow>
          d\<lparr>pc := Test, params := p, stats := s,
            maximized := MaxSequencingErrorRate ops s, count := 0\<rparr>)"

definition em_body ::
  "('p, 's, 'r, 'v) em_ops \<Rightarrow> 'v \<Rightarrow> ('p, 's, 'r) driver \<Rightarrow> ('p, 's, 'r) driver" where
  "em_body ops sites d =
     (case Update ops (set_sequencing_error_rate ops (maximized d) (params d)) sites
             (Clear ops (stats d)) of
        (p, s) \<Rightarrow>
          d\<lparr>pc := Test, params := p, stats := s,
            maximized := MaxSequencingErrorRate ops s, count := count d + 1\<rparr>)"

definition em_iter ::
  "('p, 's, 'r, 'v) em_ops \<Rightarrow> 'v \<Rightarrow> nat \<Rightarrow> ('p, 's, 'r) driver \<Rightarrow> ('p, 's, 'r) driver" where
  "em_iter ops sites k d = (em_body ops sites ^^ k) (em_start ops sites d)"

section \<open>The simulation-probability utility (counts\_probability.cc, lines 48--73)\<close>

text \<open>
  \<^verbatim>\<open>
  48  double probability = 0.0;
  49  vector<double> probabilities;
  50  int index = 0;  // Currently unused.
  51  int has_mutation_total = 0;
  52  int has_no_mutation_total = 0;
  53  int total_trios = 0;
  54  string line;
  56  while (getline(fin, line)) {
  57    line.erase(remove(line.begin(), line.end(), '\n'), line.end());
  58    stringstream str(line);
  59    str >> index;
  60    str >> has_mutation_total;
  61    str >> has_no_mutation_total;
  62    total_trios = has_mutation_total + has_no_mutation_total;
  63    if (total_trios == 0) {
  64      probability = 0.0;
  65    } else {
  66      probability = (double) has_mutation_total / total_trios;
  67    }
  68    probabilities.push_back(probability);
  69  }
  72  ostream_iterator<double> output_iter(fout, "\n");
  73  copy(probabilities.begin(), probabilities.end(), output_iter);
  \<close>
  A C++ \<open>int\<close> is a 32-bit word, read as two's complement by \<open>sint\<close>; its addition
  wraps around (the C++ standard leaves signed overflow undefined, and two's complement
  hardware wraps). A \<open>double\<close> is modelled by the real number it approximates: both
  operands of the division of line 66 are integers of at most 32 bits, which \<open>double\<close>
  holds exactly, so the quotient computed is the exact quotient rounded once.
\<close>

type_synonym cint = "32 word"

definition newline :: char where
  "newline = CHR 0x0A"

text \<open>\<open>isspace\<close> and \<open>isdigit\<close> of the C locale, which the stream uses.\<close>

definition isspace :: "char \<Rightarrow> bool" where
  "isspace c = (c = CHR '' '' \<or> (9 \<le> (of_char c :: nat) \<and> (of_char c :: nat) \<le> 13))"

definition isdigit :: "char \<Rightarrow> bool" where
  "isdigit c = (48 \<le> (of_char c :: nat) \<and> (of_char c :: nat) \<le> 57)"

text \<open>The value of a run of decimal digits, most significant first.\<close>

definition digit_val :: "char \<Rightarrow> int" where
  "digit_val c = of_char c - 48"

definition decimal :: "string \<Rightarrow> int" where
  "decimal ds = foldl (\<lambda>a c. 10 * a + digit_val c) 0 ds"

definition INT_MAX :: int where
  "INT_MAX = 2147483647"

definition INT_MIN :: int where
  "INT_MIN = - 2147483648"

text \<open>
  The \<open>stringstream\<close> of line 58: the characters not yet read and the two state bits the
  extractions set. \<open>good\<close> is \<open>str.good()\<close>.
\<close>

record sstream =
  buf :: string
  eofbit :: bool
  failbit :: bool

definition good :: "sstream \<Rightarrow> bool" where
  "good str = (\<not> eofbit str \<and> \<not> failbit str)"

text \<open>
  \<open>str >> x\<close> for an \<open>int x\<close>, as C++11 defines it (the file is compiled with
  \<open>-std=c++11\<close>). The sentry comes first: on a stream that is not good it sets
  \<open>failbit\<close> and nothing is read or stored; otherwise it skips white space, and when the
  characters end there it sets \<open>eofbit\<close> and \<open>failbit\<close>, again storing nothing. After the
  sentry, an optional sign and the longest run of digits are read (the base is decimal);
  reaching the end of the characters sets \<open>eofbit\<close>. With no digit the conversion fails:
  0 is stored and \<open>failbit\<close> is set. A value outside the range of \<open>int\<close> stores the
  nearest bound and sets \<open>failbit\<close>. Otherwise the value is stored.
\<close>

definition extract_int :: "sstream \<Rightarrow> cint \<Rightarrow> sstream \<times> cint" where
  "extract_int str x =
     (if \<not> good str then (str\<lparr>failbit := True\<rparr>, x)
      else
        (case dropWhile isspace (buf str) of
           [] \<Rightarrow> (str\<lparr>buf := [], eofbit := True, failbit := True\<rparr>, x)
         | c # cs \<Rightarrow>
             (let neg = (c = CHR ''-'');
                  r1 = (if c = CHR ''-'' \<or> c = CHR ''+'' then cs else c # cs);
                  ds = takeWhile isdigit r1;
                  r2 = dropWhile isdigit r1;
                  str' = str\<lparr>buf := r2, eofbit := (r2 = [])\<rparr>;
                  n = (if neg then - decimal ds else decimal ds)
              in if ds = [] then (str'\<lparr>failbit := True\<rparr>, 0)
                 else if n < INT_MIN then (str'\<lparr>failbit := True\<rparr>, word_of_int INT_MIN)
                 else if INT_MAX < n then (str'\<lparr>failbit := True\<rparr>, word_of_int INT_MAX)
                 else (str', word_of_int n))))"

text \<open>The local variables of lines 48--53.\<close>

record vars =
  index :: cint
  has_mutation_total :: cint
  has_no_mutation_total :: cint
  total_trios :: cint
  probability :: real
  probabilities :: "real list"

definition initial_vars :: vars where
  "initial_vars =
     \<lparr>index = 0, has_mutation_total = 0, has_no_mutation_total = 0, total_trios = 0,
      probability = 0, probabilities = []\<rparr>"

text \<open>The constructor of line 58 and the body of the loop, lines 57--68.\<close>

definition stringstream :: "string \<Rightarrow> sstream" where
  "stringstream s = \<lparr>buf = s, eofbit = False, failbit = False\<rparr>"

definition loop_body :: "string \<Rightarrow> vars \<Rightarrow> vars" where
  "loop_body line v =
     (let str = stringstream (filter (\<lambda>c. c \<noteq> newline) line);
          (str1, i) = extract_int str (index v);
          (str2, m) = extract_int str1 (has_mutation_total v);
          (str3, n) = extract_int str2 (has_no_mutation_total v);
          t = m + n;
          p = (if t = 0 then 0 else real_of_int (sint m) / real_of_int (sint t))
      in v\<lparr>index := i, has_mutation_total := m, has_no_mutation_total := n,
           total_trios := t, probability := p, probabilities := probabilities v @ [p]\<rparr>)"

text \<open>
  \<open>getline(fin, line)\<close> on the characters of the file not yet read: it fails when none is
  left, and otherwise delivers the characters before the next newline and discards that
  newline.
\<close>

definition getline :: "string \<Rightarrow> (string \<times> string) option" where
  "getline fin =
     (if fin = [] then None
      else Some (takeWhile (\<lambda>c. c \<noteq> newline) fin,
                 drop 1 (dropWhile (\<lambda>c. c \<noteq> newline) fin)))"

lemma getline_shorter:
  assumes "getline fin = Some (line, rest)"
  shows "length rest < length fin"
proof -
  from assms have ne: "fin \<noteq> []"
    and r: "rest = drop 1 (dropWhile (\<lambda>c. c \<noteq> newline) fin)"
    by (auto simp: getline_def split: if_splits)
  have "length (dropWhile (\<lambda>c. c \<noteq> newline) fin) \<le> length fin"
    by (rule length_dropWhile_le)
  moreover have "0 < length fin" using ne by simp
  ultimately show ?thesis unfolding r length_drop by arith
qed

function read_loop :: "vars \<Rightarrow> string \<Rightarrow> vars" where
  "read_loop v fin =
     (case getline fin of
        None \<Rightarrow> v
      | Some (line, rest) \<Rightarrow> read_loop (loop_body line v) rest)"
  by pat_completeness auto
termination
  by (relation "measure (\<lambda>(v, fin). length fin)") (auto simp: getline_shorter)

declare read_loop.simps [simp del]

text \<open>The values that line 73 writes, one per line of the output, in order.\<close>

definition counts_probability :: "string \<Rightarrow> real list" where
  "counts_probability fin = probabilities (read_loop initial_vars fin)"



text \<open>
  What the properties below speak about: the lines of a file, as the successive calls of
  \<open>getline\<close> deliver them, and the decimal text of an integer. \<open>int_text pl zeros x\<close>
  is a minus sign for a negative \<open>x\<close> (for the others a plus sign, when \<open>pl\<close> is set),
  then \<open>zeros\<close> leading zeros, then the digits of the absolute value of \<open>x\<close>;
  \<open>int_text False 0 x\<close> is the text that \<open>operator<<\<close> writes for \<open>x\<close>. \<open>in_int\<close> says
  that an integer is a value of the type \<open>int\<close>.
\<close>

function getlines :: "string \<Rightarrow> string list" where
  "getlines fin =
     (case getline fin of
        None \<Rightarrow> []
      | Some (line, rest) \<Rightarrow> line # getlines rest)"
  by pat_completeness auto
termination
  by (relation "measure length") (auto simp: getline_shorter)

declare getlines.simps [simp del]

definition digit_char :: "nat \<Rightarrow> char" where
  "digit_char d = char_of (48 + d)"

fun show_nat :: "nat \<Rightarrow> string" where
  "show_nat n = (if n < 10 then [digit_char n] else show_nat (n div 10) @ [digit_char (n mod 10)])"

declare show_nat.simps [simp del]

definition int_text :: "bool \<Rightarrow> nat \<Rightarrow> int \<Rightarrow> string" where
  "int_text pl zeros x =
     (if x < 0 then ''-'' else if pl then ''+'' else []) @
     replicate zeros CHR ''0'' @ show_nat (nat \<bar>x\<bar>)"

definition in_int :: "int \<Rightarrow> bool" where
  "in_int x = (INT_MIN \<le> x \<and> x \<le> INT_MAX)"

section \<open>Properties of the EM driver\<close>

subsection \<open>The statements one by one\<close>

lemma step_Init_E:
  "pc d = Init_E \<Longrightarrow> Update ops (params d) sites (stats d) = (p, s) \<Longrightarrow>
     step ops sites d = d\<lparr>pc := Init_Count, params := p, stats := s\<rparr>"
  by (simp add: step_def)

lemma step_Init_Count: "pc d = Init_Count \<Longrightarrow> step ops sites d = d\<lparr>pc := Init_M, count := 0\<rparr>"
  by (simp add: step_def)

lemma step_Init_M:
  "pc d = Init_M \<Longrightarrow>
     step ops sites d = d\<lparr>pc := Test, maximized := MaxSequencingErrorRate ops (stats d)\<rparr>"
  by (simp add: step_def)

lemma step_Test:
  "pc d = Test \<Longrightarrow>
     step ops sites d = (if converged ops d then d\<lparr>pc := Converged\<rparr> else d\<lparr>pc := Install\<rparr>)"
  by (simp add: step_def)

lemma step_Install:
  "pc d = Install \<Longrightarrow>
     step ops sites d =
       d\<lparr>pc := Reset, params := set_sequencing_error_rate ops (maximized d) (params d)\<rparr>"
  by (simp add: step_def)

lemma step_Reset:
  "pc d = Reset \<Longrightarrow> step ops sites d = d\<lparr>pc := E_Step, stats := Clear ops (stats d)\<rparr>"
  by (simp add: step_def)

lemma step_E_Step:
  "pc d = E_Step \<Longrightarrow> Update ops (params d) sites (stats d) = (p, s) \<Longrightarrow>
     step ops sites d = d\<lparr>pc := M_Step, params := p, stats := s\<rparr>"
  by (simp add: step_def)

lemma step_M_Step:
  "pc d = M_Step \<Longrightarrow>
     step ops sites d = d\<lparr>pc := Incr, maximized := MaxSequencingErrorRate ops (stats d)\<rparr>"
  by (simp add: step_def)

lemma step_Incr: "pc d = Incr \<Longrightarrow> step ops sites d = d\<lparr>pc := Test, count := count d + 1\<rparr>"
  by (simp add: step_def)

lemma step_Converged: "pc d = Converged \<Longrightarrow> step ops sites d = d"
  by (simp add: step_def)

lemma run_Converged: "pc d = Converged \<Longrightarrow> run ops sites d = Some d"
  by (subst run.simps) simp

lemma run_step: "pc d \<noteq> Converged \<Longrightarrow> run ops sites d = run ops sites (step ops sites d)"
  by (subst run.simps) simp

lemma pc_em_start [simp]: "pc (em_start ops sites d) = Test"
  by (simp add: em_start_def split: prod.splits)

lemma pc_em_body [simp]: "pc (em_body ops sites d) = Test"
  by (simp add: em_body_def split: prod.splits)

lemma pc_em_body_funpow [simp]: "pc d = Test \<Longrightarrow> pc ((em_body ops sites ^^ k) d) = Test"
  by (cases k) simp_all

lemma pc_em_iter [simp]: "pc (em_iter ops sites k d) = Test"
  by (simp add: em_iter_def)

lemma run_start:
  assumes "pc d = Init_E"
  shows "run ops sites d = run ops sites (em_start ops sites d)"
proof -
  obtain p s where u: "Update ops (params d) sites (stats d) = (p, s)"
    by (cases "Update ops (params d) sites (stats d)")
  let ?d1 = "d\<lparr>pc := Init_Count, params := p, stats := s\<rparr>"
  let ?d2 = "?d1\<lparr>pc := Init_M, count := 0\<rparr>"
  let ?d3 = "?d2\<lparr>pc := Test, maximized := MaxSequencingErrorRate ops s\<rparr>"
  have "run ops sites d = run ops sites ?d1"
    using assms u by (subst run_step) (simp_all add: step_def)
  also have "\<dots> = run ops sites ?d2"
    by (subst run_step) (simp_all add: step_def)
  also have "\<dots> = run ops sites ?d3"
    by (subst run_step) (simp_all add: step_def)
  also have "?d3 = em_start ops sites d"
    using u by (simp add: em_start_def)
  finally show ?thesis .
qed

lemma run_body:
  assumes "pc d = Test" and "\<not> converged ops d"
  shows "run ops sites d = run ops sites (em_body ops sites d)"
proof -
  let ?p1 = "set_sequencing_error_rate ops (maximized d) (params d)"
  let ?s1 = "Clear ops (stats d)"
  obtain p s where u: "Update ops ?p1 sites ?s1 = (p, s)"
    by (cases "Update ops ?p1 sites ?s1")
  let ?d1 = "d\<lparr>pc := Install\<rparr>"
  let ?d2 = "?d1\<lparr>pc := Reset, params := ?p1\<rparr>"
  let ?d3 = "?d2\<lparr>pc := E_Step, stats := ?s1\<rparr>"
  let ?d4 = "?d3\<lparr>pc := M_Step, params := p, stats := s\<rparr>"
  let ?d5 = "?d4\<lparr>pc := Incr, maximized := MaxSequencingErrorRate ops s\<rparr>"
  let ?d6 = "?d5\<lparr>pc := Test, count := count d + 1\<rparr>"
  have "run ops sites d = run ops sites ?d1"
    using assms by (subst run_step) (simp_all add: step_def)
  also have "\<dots> = run ops sites ?d2"
    by (subst run_step) (simp_all add: step_def)
  also have "\<dots> = run ops sites ?d3"
    by (subst run_step) (simp_all add: step_def)
  also have "\<dots> = run ops sites ?d4"
    using u by (subst run_step) (simp_all add: step_def)
  also have "\<dots> = run ops sites ?d5"
    by (subst run_step) (simp_all add: step_def)
  also have "\<dots> = run ops sites ?d6"
    by (subst run_step) (simp_all add: step_def)
  also have "?d6 = em_body ops sites d"
    using u by (simp add: em_body_def)
  finally show ?thesis .
qed

lemma run_test_converged:
  assumes "pc d = Test" and "converged ops d"
  shows "run ops sites d = Some (d\<lparr>pc := Converged\<rparr>)"
proof -
  have "run ops sites d = run ops sites (d\<lparr>pc := Converged\<rparr>)"
    using assms by (subst run_step) (simp_all add: step_def)
  then show ?thesis by (simp add: run_Converged)
qed

lemma run_least:
  assumes "pc d = Test"
    and "converged ops ((em_body ops sites ^^ k) d)"
    and "\<forall>j<k. \<not> converged ops ((em_body ops sites ^^ j) d)"
  shows "run ops sites d = Some (((em_body ops sites ^^ k) d)\<lparr>pc := Converged\<rparr>)"
  using assms
proof (induction k arbitrary: d)
  case 0
  then show ?case by (simp add: run_test_converged)
next
  case (Suc k)
  from Suc.prems(3) have nc: "\<not> converged ops d" by force
  have "run ops sites d = run ops sites (em_body ops sites d)"
    using Suc.prems(1) nc by (rule run_body)
  also have "\<dots> = Some (((em_body ops sites ^^ k) (em_body ops sites d))\<lparr>pc := Converged\<rparr>)"
  proof (rule Suc.IH)
    show "pc (em_body ops sites d) = Test" by simp
    show "converged ops ((em_body ops sites ^^ k) (em_body ops sites d))"
      using Suc.prems(2) by (simp add: funpow_swap1)
    show "\<forall>j<k. \<not> converged ops ((em_body ops sites ^^ j) (em_body ops sites d))"
    proof (intro allI impI)
      fix j assume "j < k"
      then have "\<not> converged ops ((em_body ops sites ^^ Suc j) d)"
        using Suc.prems(3) by (meson Suc_mono)
      then show "\<not> converged ops ((em_body ops sites ^^ j) (em_body ops sites d))"
        by (simp add: funpow_swap1)
    qed
  qed
  finally show ?case by (simp add: funpow_swap1)
qed

lemma funpow_next: "m = Suc n \<Longrightarrow> (f ^^ m) x = f ((f ^^ n) x)"
  by simp

lemma steps_from_test:
  assumes "pc d = Test" and "\<not> converged ops d"
    and "Update ops (set_sequencing_error_rate ops (maximized d) (params d)) sites
           (Clear ops (stats d)) = (p, s)"
  shows "step ops sites d = d\<lparr>pc := Install\<rparr>"
    and "(step ops sites ^^ 2) d =
           d\<lparr>pc := Reset, params := set_sequencing_error_rate ops (maximized d) (params d)\<rparr>"
    and "(step ops sites ^^ 3) d =
           d\<lparr>pc := E_Step, params := set_sequencing_error_rate ops (maximized d) (params d),
             stats := Clear ops (stats d)\<rparr>"
    and "(step ops sites ^^ 4) d = d\<lparr>pc := M_Step, params := p, stats := s\<rparr>"
    and "(step ops sites ^^ 5) d =
           d\<lparr>pc := Incr, params := p, stats := s, maximized := MaxSequencingErrorRate ops s\<rparr>"
    and "(step ops sites ^^ 6) d =
           d\<lparr>pc := Test, params := p, stats := s, maximized := MaxSequencingErrorRate ops s,
             count := count d + 1\<rparr>"
proof -
  let ?d1 = "d\<lparr>pc := Install\<rparr>"
  let ?d2 = "d\<lparr>pc := Reset, params := set_sequencing_error_rate ops (maximized d) (params d)\<rparr>"
  let ?d3 = "d\<lparr>pc := E_Step, params := set_sequencing_error_rate ops (maximized d) (params d),
             stats := Clear ops (stats d)\<rparr>"
  let ?d4 = "d\<lparr>pc := M_Step, params := p, stats := s\<rparr>"
  let ?d5 = "d\<lparr>pc := Incr, params := p, stats := s, maximized := MaxSequencingErrorRate ops s\<rparr>"
  let ?d6 = "d\<lparr>pc := Test, params := p, stats := s, maximized := MaxSequencingErrorRate ops s,
             count := count d + 1\<rparr>"
  show 1: "step ops sites d = ?d1"
    using assms(1,2) by (simp add: step_Test)
  have "step ops sites ?d1 = ?d2" by (simp add: step_Install)
  then show 2: "(step ops sites ^^ 2) d = ?d2"
    by (subst funpow_next [of 2 1]) (simp_all add: 1)
  have "step ops sites ?d2 = ?d3" by (simp add: step_Reset)
  then show 3: "(step ops sites ^^ 3) d = ?d3"
    by (subst funpow_next [of 3 2]) (simp_all add: 2)
  have "step ops sites ?d3 = ?d4" using assms(3) by (simp add: step_E_Step)
  then show 4: "(step ops sites ^^ 4) d = ?d4"
    by (subst funpow_next [of 4 3]) (simp_all add: 3)
  have "step ops sites ?d4 = ?d5" by (simp add: step_M_Step)
  then show 5: "(step ops sites ^^ 5) d = ?d5"
    by (subst funpow_next [of 5 4]) (simp_all add: 4)
  have "step ops sites ?d5 = ?d6" by (simp add: step_Incr)
  then show "(step ops sites ^^ 6) d = ?d6"
    by (subst funpow_next [of 6 5]) (simp_all add: 5)
qed

lemma steps_em_body:
  assumes "pc d = Test" and "\<not> converged ops d"
  shows "(step ops sites ^^ 6) d = em_body ops sites d"
proof -
  obtain p s where u: "Update ops (set_sequencing_error_rate ops (maximized d) (params d)) sites
           (Clear ops (stats d)) = (p, s)"
    by (cases "Update ops (set_sequencing_error_rate ops (maximized d) (params d)) sites
           (Clear ops (stats d))")
  show ?thesis
    using steps_from_test(6) [OF assms u] u by (simp add: em_body_def)
qed

lemma steps_not_Converged:
  assumes "pc d = Test" and "\<not> converged ops d" and "n < 6"
  shows "pc ((step ops sites ^^ n) d) \<noteq> Converged"
proof -
  obtain p s where u: "Update ops (set_sequencing_error_rate ops (maximized d) (params d)) sites
           (Clear ops (stats d)) = (p, s)"
    by (cases "Update ops (set_sequencing_error_rate ops (maximized d) (params d)) sites
           (Clear ops (stats d))")
  note st = steps_from_test [OF assms(1,2) u]
  from assms(3) consider "n = 0" | "n = 1" | "n = 2" | "n = 3" | "n = 4" | "n = 5"
    by linarith
  then show ?thesis
  proof cases
    case 1 then show ?thesis using assms(1) by simp
  next
    case 2 then show ?thesis using st(1) by simp
  next
    case 3 then show ?thesis using st(2) by simp
  next
    case 4 then show ?thesis using st(3) by simp
  next
    case 5 then show ?thesis using st(4) by simp
  next
    case 6 then show ?thesis using st(5) by simp
  qed
qed

lemma run_Some_steps:
  assumes "run ops sites d = Some r"
  shows "\<exists>n. pc ((step ops sites ^^ n) d) = Converged"
proof (rule run.raw_induct
    [where P = "\<lambda>ops sites d r. \<exists>n. pc ((step ops sites ^^ n) d) = Converged", OF _ assms])
  fix f :: "('a, 'b, 'c, 'd) em_ops \<Rightarrow> 'd \<Rightarrow> ('a, 'b, 'c) driver \<Rightarrow> ('a, 'b, 'c) driver option"
    and ops' sites' d' r'
  assume IH: "\<And>o' s' b y. f o' s' b = Some y \<Longrightarrow> \<exists>n. pc ((step o' s' ^^ n) b) = Converged"
    and eq: "(if pc d' = Converged then Some d' else f ops' sites' (step ops' sites' d')) = Some r'"
  show "\<exists>n. pc ((step ops' sites' ^^ n) d') = Converged"
  proof (cases "pc d' = Converged")
    case True
    then have "pc ((step ops' sites' ^^ 0) d') = Converged" by simp
    then show ?thesis by blast
  next
    case False
    with eq have "f ops' sites' (step ops' sites' d') = Some r'" by simp
    then obtain n where "pc ((step ops' sites' ^^ n) (step ops' sites' d')) = Converged"
      using IH by blast
    then have "pc ((step ops' sites' ^^ Suc n) d') = Converged"
      by (simp add: funpow_swap1)
    then show ?thesis by blast
  qed
qed

lemma steps_converged_ex:
  "pc ((step ops sites ^^ n) d) = Converged \<Longrightarrow> pc d = Test \<Longrightarrow>
     \<exists>k. converged ops ((em_body ops sites ^^ k) d)"
proof (induction n arbitrary: d rule: less_induct)
  case (less n)
  show ?case
  proof (cases "converged ops d")
    case True
    then have "converged ops ((em_body ops sites ^^ 0) d)" by simp
    then show ?thesis by blast
  next
    case False
    have ge: "\<not> n < 6"
      using steps_not_Converged [OF less.prems(2) False] less.prems(1) by blast
    have "(step ops sites ^^ ((n - 6) + 6)) d =
            (step ops sites ^^ (n - 6)) ((step ops sites ^^ 6) d)"
      by (simp only: funpow_add o_apply)
    moreover have "(n - 6) + 6 = n" using ge by simp
    ultimately have "(step ops sites ^^ n) d =
            (step ops sites ^^ (n - 6)) (em_body ops sites d)"
      using steps_em_body [OF less.prems(2) False, of sites] by simp
    with less.prems(1)
    have c: "pc ((step ops sites ^^ (n - 6)) (em_body ops sites d)) = Converged" by simp
    have lt: "n - 6 < n" using ge by simp
    from less.IH [OF lt c pc_em_body]
    obtain k where "converged ops ((em_body ops sites ^^ k) (em_body ops sites d))" ..
    then have "converged ops ((em_body ops sites ^^ Suc k) d)"
      by (simp add: funpow_swap1)
    then show ?thesis by blast
  qed
qed

lemma run_Some_iff:
  assumes "pc d = Test"
  shows "(\<exists>r. run ops sites d = Some r) \<longleftrightarrow> (\<exists>k. converged ops ((em_body ops sites ^^ k) d))"
proof
  assume "\<exists>r. run ops sites d = Some r"
  then obtain r where "run ops sites d = Some r" ..
  from run_Some_steps [OF this] obtain n where "pc ((step ops sites ^^ n) d) = Converged" ..
  then show "\<exists>k. converged ops ((em_body ops sites ^^ k) d)"
    using assms by (rule steps_converged_ex)
next
  assume ex: "\<exists>k. converged ops ((em_body ops sites ^^ k) d)"
  define K where "K = (LEAST k. converged ops ((em_body ops sites ^^ k) d))"
  have "converged ops ((em_body ops sites ^^ K) d)"
    unfolding K_def using ex by (rule LeastI_ex)
  moreover have "\<forall>j<K. \<not> converged ops ((em_body ops sites ^^ j) d)"
  proof (intro allI impI)
    fix j assume "j < K"
    then show "\<not> converged ops ((em_body ops sites ^^ j) d)"
      unfolding K_def by (rule not_less_Least)
  qed
  ultimately have "run ops sites d = Some (((em_body ops sites ^^ K) d)\<lparr>pc := Converged\<rparr>)"
    by (rule run_least [OF assms])
  then show "\<exists>r. run ops sites d = Some r" ..
qed


lemma test_entered:
  "pc (step ops sites d) = Test \<Longrightarrow> pc d = Init_M \<or> pc d = Incr"
  by (cases "pc d") (auto simp: step_def split: prod.splits if_splits)

lemma m_step_entered:
  "pc (step ops sites d) = Init_M \<Longrightarrow> pc d = Init_Count"
  "pc (step ops sites d) = Init_Count \<Longrightarrow> pc d = Init_E"
  "pc (step ops sites d) = Incr \<Longrightarrow> pc d = M_Step"
  "pc (step ops sites d) = M_Step \<Longrightarrow> pc d = E_Step"
  by (cases "pc d"; auto simp: step_def split: prod.splits if_splits)+

text \<open>
  Claim C1. The loop condition (\<open>Test\<close>) is entered only from the M-step of line 76 or,
  through \<open>count++\<close>, from the M-step of line 81, each of which follows an E-step. At the
  condition, if the candidate rate \<open>maximized\<close> is \<open>Equal\<close> to the model's current rate the
  driver moves to \<open>Converged\<close>, stays there, and the run returns. Otherwise the next statements are, in this
  order: \<open>set_sequencing_error_rate\<close> installs the candidate into the model, \<open>Clear\<close> resets
  the accumulator, \<open>Update\<close> runs the E-step on the new model and the cleared accumulator,
  \<open>MaxSequencingErrorRate\<close> computes the next candidate, the counter is incremented, and
  the driver is back at the condition.
\<close>

theorem em_driver_step_relation:
  assumes "pc d = Test"
  shows "(converged ops d \<longrightarrow>
            step ops sites d = d\<lparr>pc := Converged\<rparr> \<and>
            step ops sites (d\<lparr>pc := Converged\<rparr>) = d\<lparr>pc := Converged\<rparr> \<and>
            run ops sites d = Some (d\<lparr>pc := Converged\<rparr>)) \<and>
         (\<not> converged ops d \<longrightarrow>
            (\<forall>p s. Update ops (set_sequencing_error_rate ops (maximized d) (params d)) sites
                     (Clear ops (stats d)) = (p, s) \<longrightarrow>
               step ops sites d = d\<lparr>pc := Install\<rparr> \<and>
               (step ops sites ^^ 2) d =
                 d\<lparr>pc := Reset,
                   params := set_sequencing_error_rate ops (maximized d) (params d)\<rparr> \<and>
               (step ops sites ^^ 3) d =
                 d\<lparr>pc := E_Step,
                   params := set_sequencing_error_rate ops (maximized d) (params d),
                   stats := Clear ops (stats d)\<rparr> \<and>
               (step ops sites ^^ 4) d = d\<lparr>pc := M_Step, params := p, stats := s\<rparr> \<and>
               (step ops sites ^^ 5) d =
                 d\<lparr>pc := Incr, params := p, stats := s,
                   maximized := MaxSequencingErrorRate ops s\<rparr> \<and>
               (step ops sites ^^ 6) d =
                 d\<lparr>pc := Test, params := p, stats := s,
                   maximized := MaxSequencingErrorRate ops s, count := count d + 1\<rparr>)) \<and>
         (\<forall>d'. (pc (step ops sites d') = Test \<longrightarrow> pc d' = Init_M \<or> pc d' = Incr) \<and>
               (pc (step ops sites d') = Incr \<longrightarrow> pc d' = M_Step) \<and>
               (pc (step ops sites d') = M_Step \<longrightarrow> pc d' = E_Step) \<and>
               (pc (step ops sites d') = Init_M \<longrightarrow> pc d' = Init_Count) \<and>
               (pc (step ops sites d') = Init_Count \<longrightarrow> pc d' = Init_E))"
proof (intro conjI impI allI)
  assume c: "converged ops d"
  show "step ops sites d = d\<lparr>pc := Converged\<rparr>"
    using assms c by (simp add: step_Test)
  show "step ops sites (d\<lparr>pc := Converged\<rparr>) = d\<lparr>pc := Converged\<rparr>"
    by (simp add: step_Converged)
  show "run ops sites d = Some (d\<lparr>pc := Converged\<rparr>)"
    using assms c by (rule run_test_converged)
next
  fix p s
  assume nc: "\<not> converged ops d"
    and u: "Update ops (set_sequencing_error_rate ops (maximized d) (params d)) sites
              (Clear ops (stats d)) = (p, s)"
  note st = steps_from_test [OF assms nc u]
  show "step ops sites d = d\<lparr>pc := Install\<rparr>" by (rule st(1))
  show "(step ops sites ^^ 2) d =
          d\<lparr>pc := Reset, params := set_sequencing_error_rate ops (maximized d) (params d)\<rparr>"
    by (rule st(2))
  show "(step ops sites ^^ 3) d =
          d\<lparr>pc := E_Step, params := set_sequencing_error_rate ops (maximized d) (params d),
            stats := Clear ops (stats d)\<rparr>"
    by (rule st(3))
  show "(step ops sites ^^ 4) d = d\<lparr>pc := M_Step, params := p, stats := s\<rparr>"
    by (rule st(4))
  show "(step ops sites ^^ 5) d =
          d\<lparr>pc := Incr, params := p, stats := s, maximized := MaxSequencingErrorRate ops s\<rparr>"
    by (rule st(5))
  show "(step ops sites ^^ 6) d =
          d\<lparr>pc := Test, params := p, stats := s, maximized := MaxSequencingErrorRate ops s,
            count := count d + 1\<rparr>"
    by (rule st(6))
next
  fix d' :: "('a, 'b, 'c) driver"
  show "pc d' = Init_M \<or> pc d' = Incr" if "pc (step ops sites d') = Test"
    using that by (rule test_entered)
  show "pc d' = M_Step" if "pc (step ops sites d') = Incr"
    using that by (rule m_step_entered)
  show "pc d' = E_Step" if "pc (step ops sites d') = M_Step"
    using that by (rule m_step_entered)
  show "pc d' = Init_Count" if "pc (step ops sites d') = Init_M"
    using that by (rule m_step_entered)
  show "pc d' = Init_E" if "pc (step ops sites d') = Init_Count"
    using that by (rule m_step_entered)
qed

text \<open>An instance over integers: the E-step adds half the rate to the accumulator.\<close>

theorem em_driver_step_relation_witness:
  "pc \<lparr>pc = Test, params = 2::int, stats = 1::int, maximized = 1::int, count = 0\<rparr> = Test \<and>
   \<not> converged
      \<lparr>Update = (\<lambda>p (v::unit) s. (p, s + p div 2)), MaxSequencingErrorRate = (\<lambda>s. s),
        Clear = (\<lambda>s. 0), sequencing_error_rate = (\<lambda>p. p),
        set_sequencing_error_rate = (\<lambda>r p. r), Equal = (\<lambda>a b. a = b)\<rparr>
      \<lparr>pc = Test, params = 2::int, stats = 1::int, maximized = 1::int, count = 0\<rparr> \<and>
   (step
      \<lparr>Update = (\<lambda>p (v::unit) s. (p, s + p div 2)), MaxSequencingErrorRate = (\<lambda>s. s),
        Clear = (\<lambda>s. 0), sequencing_error_rate = (\<lambda>p. p),
        set_sequencing_error_rate = (\<lambda>r p. r), Equal = (\<lambda>a b. a = b)\<rparr> () ^^ 6)
      \<lparr>pc = Test, params = 2::int, stats = 1::int, maximized = 1::int, count = 0\<rparr> =
     \<lparr>pc = Test, params = 1, stats = 0, maximized = 0, count = 1\<rparr>"
proof -
  let ?ops = "\<lparr>Update = (\<lambda>(p::int) (v::unit) (s::int). (p, s + p div 2)),
        MaxSequencingErrorRate = (\<lambda>s. s),
        Clear = (\<lambda>s. 0), sequencing_error_rate = (\<lambda>p. p),
        set_sequencing_error_rate = (\<lambda>(r::int) (p::int). r), Equal = (\<lambda>a b. a = b)\<rparr>"
  let ?d = "\<lparr>pc = Test, params = 2::int, stats = 1::int, maximized = 1::int, count = 0\<rparr>"
  have t: "pc ?d = Test" by simp
  have nc: "\<not> converged ?ops ?d" by (simp add: converged_def)
  have u: "Update ?ops (set_sequencing_error_rate ?ops (maximized ?d) (params ?d)) ()
             (Clear ?ops (stats ?d)) = (1, 0)"
    by simp
  from em_driver_step_relation [OF t, of ?ops "()"] nc u
  have "(step ?ops () ^^ 6) ?d =
          ?d\<lparr>pc := Test, params := 1, stats := 0, maximized := MaxSequencingErrorRate ?ops 0,
            count := count ?d + 1\<rparr>"
    by blast
  then show ?thesis using t nc by simp
qed

text \<open>
  Claim C3. The loop has no iteration bound: started at line 72, the driver returns if and
  only if the candidate rate is \<open>Equal\<close> to the current rate after some number \<open>k\<close> of
  passes through the loop body; it then returns after the least such \<open>k\<close> passes. When the
  first candidate already equals the initial rate, it returns with no pass through the body
  at all (\<open>count\<close> is 0).
\<close>

theorem em_loop_termination:
  assumes "pc d = Init_E"
  shows "((\<exists>r. run ops sites d = Some r) \<longleftrightarrow> (\<exists>k. converged ops (em_iter ops sites k d))) \<and>
         (\<forall>k. converged ops (em_iter ops sites k d) \<and>
               (\<forall>j<k. \<not> converged ops (em_iter ops sites j d)) \<longrightarrow>
               run ops sites d = Some ((em_iter ops sites k d)\<lparr>pc := Converged\<rparr>)) \<and>
         (converged ops (em_start ops sites d) \<longrightarrow>
            run ops sites d = Some ((em_start ops sites d)\<lparr>pc := Converged\<rparr>) \<and>
            count (em_start ops sites d) = 0)"
proof (intro conjI allI impI)
  have s: "run ops sites d = run ops sites (em_start ops sites d)"
    using assms by (rule run_start)
  show "(\<exists>r. run ops sites d = Some r) \<longleftrightarrow> (\<exists>k. converged ops (em_iter ops sites k d))"
    unfolding s em_iter_def by (rule run_Some_iff) simp
  show "run ops sites d = Some ((em_iter ops sites k d)\<lparr>pc := Converged\<rparr>)"
    if "converged ops (em_iter ops sites k d) \<and>
        (\<forall>j<k. \<not> converged ops (em_iter ops sites j d))" for k
    unfolding s using that unfolding em_iter_def
    by (intro run_least) simp_all
  assume c: "converged ops (em_start ops sites d)"
  show "run ops sites d = Some ((em_start ops sites d)\<lparr>pc := Converged\<rparr>)"
    unfolding s using c by (intro run_test_converged) simp_all
  show "count (em_start ops sites d) = 0"
    by (simp add: em_start_def split: prod.splits)
qed

text \<open>
  The same instance from line 72: the loop body runs twice. In a second instance the E-step
  always yields the rate plus one, no candidate ever equals the rate, and the run never
  returns.
\<close>

lemma never_converges_instance:
  "maximized (em_iter
      \<lparr>Update = (\<lambda>p (v::unit) s. (p, p + 1)), MaxSequencingErrorRate = (\<lambda>s. s),
        Clear = (\<lambda>s. 0), sequencing_error_rate = (\<lambda>p. p),
        set_sequencing_error_rate = (\<lambda>r p. r), Equal = (\<lambda>a b. a = b)\<rparr> () k
      \<lparr>pc = Init_E, params = 0::int, stats = 0::int, maximized = 0::int, count = 0\<rparr>) =
   params (em_iter
      \<lparr>Update = (\<lambda>p (v::unit) s. (p, p + 1)), MaxSequencingErrorRate = (\<lambda>s. s),
        Clear = (\<lambda>s. 0), sequencing_error_rate = (\<lambda>p. p),
        set_sequencing_error_rate = (\<lambda>r p. r), Equal = (\<lambda>a b. a = b)\<rparr> () k
      \<lparr>pc = Init_E, params = 0::int, stats = 0::int, maximized = 0::int, count = 0\<rparr>) + 1"
  by (induction k) (simp_all add: em_iter_def em_start_def em_body_def)


theorem em_loop_termination_witness:
  "pc \<lparr>pc = Init_E, params = 2::int, stats = 0::int, maximized = 0::int, count = 0\<rparr> = Init_E \<and>
   run
      \<lparr>Update = (\<lambda>p (v::unit) s. (p, s + p div 2)), MaxSequencingErrorRate = (\<lambda>s. s),
        Clear = (\<lambda>s. 0), sequencing_error_rate = (\<lambda>p. p),
        set_sequencing_error_rate = (\<lambda>r p. r), Equal = (\<lambda>a b. a = b)\<rparr> ()
      \<lparr>pc = Init_E, params = 2::int, stats = 0::int, maximized = 0::int, count = 0\<rparr> =
     Some \<lparr>pc = Converged, params = 0, stats = 0, maximized = 0, count = 2\<rparr> \<and>
   run
      \<lparr>Update = (\<lambda>p (v::unit) s. (p, p + 1)), MaxSequencingErrorRate = (\<lambda>s. s),
        Clear = (\<lambda>s. 0), sequencing_error_rate = (\<lambda>p. p),
        set_sequencing_error_rate = (\<lambda>r p. r), Equal = (\<lambda>a b. a = b)\<rparr> ()
      \<lparr>pc = Init_E, params = 0::int, stats = 0::int, maximized = 0::int, count = 0\<rparr> = None"
proof -
  let ?ops = "\<lparr>Update = (\<lambda>(p::int) (v::unit) (s::int). (p, s + p div 2)),
        MaxSequencingErrorRate = (\<lambda>s. s),
        Clear = (\<lambda>s. 0), sequencing_error_rate = (\<lambda>p. p),
        set_sequencing_error_rate = (\<lambda>(r::int) (p::int). r), Equal = (\<lambda>a b. a = b)\<rparr>"
  let ?d = "\<lparr>pc = Init_E, params = 2::int, stats = 0::int, maximized = 0::int, count = 0\<rparr>"
  have t: "pc ?d = Init_E" by simp
  have i0: "em_iter ?ops () 0 ?d = \<lparr>pc = Test, params = 2, stats = 1, maximized = 1, count = 0\<rparr>"
    by (simp add: em_iter_def em_start_def)
  have i1: "em_iter ?ops () 1 ?d = \<lparr>pc = Test, params = 1, stats = 0, maximized = 0, count = 1\<rparr>"
    using i0 by (simp add: em_iter_def em_body_def)
  have i2: "em_iter ?ops () 2 ?d = \<lparr>pc = Test, params = 0, stats = 0, maximized = 0, count = 2\<rparr>"
    using i1 by (simp add: em_iter_def em_body_def eval_nat_numeral)
  have c2: "converged ?ops (em_iter ?ops () 2 ?d)"
    by (simp add: i2 converged_def)
  have nc: "\<forall>j<2. \<not> converged ?ops (em_iter ?ops () j ?d)"
  proof (intro allI impI)
    fix j :: nat assume "j < 2"
    then consider "j = 0" | "j = 1" by linarith
    then show "\<not> converged ?ops (em_iter ?ops () j ?d)"
    proof cases
      case 1
      then show ?thesis using i0 by (simp add: converged_def)
    next
      case 2
      then show ?thesis using i1 by (simp add: converged_def)
    qed
  qed
  from em_loop_termination [OF t, of ?ops "()"] c2 nc
  have "run ?ops () ?d = Some ((em_iter ?ops () 2 ?d)\<lparr>pc := Converged\<rparr>)"
    by blast
  then have conv: "run ?ops () ?d =
      Some \<lparr>pc = Converged, params = 0, stats = 0, maximized = 0, count = 2\<rparr>"
    by (simp add: i2)
  let ?ops' = "\<lparr>Update = (\<lambda>(p::int) (v::unit) (s::int). (p, p + 1)),
        MaxSequencingErrorRate = (\<lambda>s. s),
        Clear = (\<lambda>s. 0), sequencing_error_rate = (\<lambda>p. p),
        set_sequencing_error_rate = (\<lambda>(r::int) (p::int). r), Equal = (\<lambda>a b. a = b)\<rparr>"
  let ?d' = "\<lparr>pc = Init_E, params = 0::int, stats = 0::int, maximized = 0::int, count = 0\<rparr>"
  have t': "pc ?d' = Init_E" by simp
  have "\<not> converged ?ops' (em_iter ?ops' () k ?d')" for k
    using never_converges_instance [of k] by (simp add: converged_def)
  then have "\<not> (\<exists>k. converged ?ops' (em_iter ?ops' () k ?d'))" by blast
  with em_loop_termination [OF t', of ?ops' "()"]
  have "\<not> (\<exists>r. run ?ops' () ?d' = Some r)" by blast
  then have div: "run ?ops' () ?d' = None" by (cases "run ?ops' () ?d'") auto
  show ?thesis using t conv div by blast
qed

section \<open>Properties of the simulation-probability utility\<close>

subsection \<open>Reading back the decimal text of an integer\<close>

lemma digit_char_props:
  assumes "d < 10"
  shows "isdigit (digit_char d)" and "digit_val (digit_char d) = int d"
    and "\<not> isspace (digit_char d)" and "digit_char d \<noteq> newline"
    and "digit_char d \<noteq> CHR ''-''" and "digit_char d \<noteq> CHR ''+''"
proof -
  have o: "of_char (digit_char d) = 48 + d"
    using assms by (simp add: digit_char_def)
  show "isdigit (digit_char d)" using assms by (simp add: isdigit_def o)
  have "(of_char (digit_char d) :: int) = int (of_char (digit_char d))"
    by (simp add: of_char_def)
  then show "digit_val (digit_char d) = int d" by (simp add: digit_val_def o)
  show "\<not> isspace (digit_char d)"
  proof
    assume "isspace (digit_char d)"
    then have "of_char (digit_char d) = (32::nat) \<or> of_char (digit_char d) \<le> (13::nat)"
      by (auto simp: isspace_def)
    then show False using o by simp
  qed
  show "digit_char d \<noteq> newline"
  proof
    assume "digit_char d = newline"
    then have "of_char (digit_char d) = (of_char newline :: nat)" by simp
    then show False using o by (simp add: newline_def)
  qed
  show "digit_char d \<noteq> CHR ''-''"
  proof
    assume "digit_char d = CHR ''-''"
    then have "of_char (digit_char d) = (of_char CHR ''-'' :: nat)" by simp
    then show False using o assms by simp
  qed
  show "digit_char d \<noteq> CHR ''+''"
  proof
    assume "digit_char d = CHR ''+''"
    then have "of_char (digit_char d) = (of_char CHR ''+'' :: nat)" by simp
    then show False using o assms by simp
  qed
qed

lemma show_nat_digits: "\<forall>c\<in>set (show_nat n). isdigit c \<and> \<not> isspace c \<and> c \<noteq> newline"
proof (induction n rule: show_nat.induct)
  case (1 n)
  show ?case
  proof (cases "n < 10")
    case True
    then show ?thesis by (subst show_nat.simps) (simp add: digit_char_props)
  next
    case False
    have "n mod 10 < 10" by simp
    with 1 False show ?thesis
      by (subst show_nat.simps) (auto simp: digit_char_props)
  qed
qed

lemma show_nat_nonempty: "show_nat n \<noteq> []"
  by (subst show_nat.simps) simp

lemma decimal_snoc: "decimal (ds @ [c]) = 10 * decimal ds + digit_val c"
  by (simp add: decimal_def)

lemma decimal_show_nat: "decimal (show_nat n) = int n"
proof (induction n rule: show_nat.induct)
  case (1 n)
  show ?case
  proof (cases "n < 10")
    case True
    then show ?thesis
      by (subst show_nat.simps) (simp add: decimal_def digit_char_props)
  next
    case False
    have "n mod 10 < 10" by simp
    then have "digit_val (digit_char (n mod 10)) = int (n mod 10)"
      by (rule digit_char_props)
    moreover have "10 * int (n div 10) + int (n mod 10) = int n"
      by presburger
    ultimately show ?thesis using 1 False
      by (subst show_nat.simps) (simp add: decimal_snoc)
  qed
qed

lemma decimal_append: "decimal (xs @ ys) = foldl (\<lambda>a c. 10 * a + digit_val c) (decimal xs) ys"
  by (simp add: decimal_def)

lemma decimal_zeros: "decimal (replicate z CHR ''0'') = 0"
proof (induction z)
  case 0
  then show ?case by (simp add: decimal_def)
next
  case (Suc z)
  have "replicate (Suc z) CHR ''0'' = replicate z CHR ''0'' @ [CHR ''0'']"
    by (simp add: replicate_append_same)
  then show ?case using Suc by (simp only: decimal_snoc) (simp add: digit_val_def)
qed

lemma decimal_leading_zeros: "decimal (replicate z CHR ''0'' @ ds) = decimal ds"
  by (simp add: decimal_append decimal_zeros) (simp add: decimal_def)

lemma isspace_not_isdigit: "isspace c \<Longrightarrow> \<not> isdigit c"
  by (auto simp: isspace_def isdigit_def)

lemma int_text_shape:
  obtains sg ds where "int_text pl zeros x = sg @ ds"
    and "sg = [] \<or> sg = ''-'' \<or> sg = ''+''"
    and "ds \<noteq> []" and "\<forall>c\<in>set ds. isdigit c"
    and "(if sg = ''-'' then - decimal ds else decimal ds) = x"
proof -
  let ?sg = "if x < 0 then ''-'' else if pl then ''+'' else []"
  let ?ds = "replicate zeros CHR ''0'' @ show_nat (nat \<bar>x\<bar>)"
  have 1: "int_text pl zeros x = ?sg @ ?ds" by (simp add: int_text_def)
  have 2: "?sg = [] \<or> ?sg = ''-'' \<or> ?sg = ''+''" by simp
  have 3: "?ds \<noteq> []" using show_nat_nonempty by simp
  have "isdigit CHR ''0''" by (simp add: isdigit_def)
  then have 4: "\<forall>c\<in>set ?ds. isdigit c" using show_nat_digits by auto
  have "decimal ?ds = \<bar>x\<bar>" by (simp add: decimal_leading_zeros decimal_show_nat)
  then have 5: "(if ?sg = ''-'' then - decimal ?ds else decimal ?ds) = x" by simp
  from 1 2 3 4 5 show ?thesis by (rule that)
qed

lemma takeWhile_digits:
  assumes "rest = [] \<or> \<not> isdigit (hd rest)" and "\<forall>c\<in>set ds. isdigit c"
  shows "takeWhile isdigit (ds @ rest) = ds"
    and "dropWhile isdigit (ds @ rest) = rest"
proof -
  have r: "takeWhile isdigit rest = []" "dropWhile isdigit rest = rest"
    using assms(1) by (cases rest; auto)+
  show "takeWhile isdigit (ds @ rest) = ds"
    using assms(2) r by simp
  show "dropWhile isdigit (ds @ rest) = rest"
    using assms(2) r by simp
qed

lemma extract_int_token:
  assumes g: "good str"
    and b: "buf str = ws @ sg @ ds @ rest"
    and ws: "\<forall>c\<in>set ws. isspace c"
    and sg: "sg = [] \<or> sg = ''-'' \<or> sg = ''+''"
    and ne: "ds \<noteq> []" and ds: "\<forall>c\<in>set ds. isdigit c"
    and rest: "rest = [] \<or> \<not> isdigit (hd rest)"
    and x: "in_int (if sg = ''-'' then - decimal ds else decimal ds)"
  shows "extract_int str v =
           (str\<lparr>buf := rest, eofbit := (rest = [])\<rparr>,
            word_of_int (if sg = ''-'' then - decimal ds else decimal ds))"
proof -
  obtain c cs where dcs: "ds = c # cs" using ne by (cases ds) auto
  have cd: "isdigit c" using ds dcs by simp
  have cm: "c \<noteq> CHR ''-''" "c \<noteq> CHR ''+''" "\<not> isspace c"
    using cd by (auto simp: isdigit_def isspace_def)
  have tk: "takeWhile isdigit (c # cs @ rest) = c # cs"
    "dropWhile isdigit (c # cs @ rest) = rest"
    using takeWhile_digits [OF rest ds] dcs by simp_all
  have sp: "\<not> isspace CHR ''-''" "\<not> isspace CHR ''+''" by (simp_all add: isspace_def)
  from sg consider "sg = []" | "sg = ''-''" | "sg = ''+''" by blast
  then show ?thesis
  proof cases
    case 1
    have dw: "dropWhile isspace (buf str) = c # cs @ rest"
      unfolding b using ws cm 1 dcs by simp
    show ?thesis
      using g x 1 dcs
      by (simp add: extract_int_def dw Let_def cm tk in_int_def
          del: takeWhile.simps dropWhile.simps)
  next
    case 2
    have dw: "dropWhile isspace (buf str) = CHR ''-'' # c # cs @ rest"
      unfolding b using ws sp 2 dcs by simp
    show ?thesis
      using g x 2 dcs
      by (simp add: extract_int_def dw Let_def tk in_int_def
          del: takeWhile.simps dropWhile.simps)
  next
    case 3
    have dw: "dropWhile isspace (buf str) = CHR ''+'' # c # cs @ rest"
      unfolding b using ws sp 3 dcs by simp
    show ?thesis
      using g x 3 dcs
      by (simp add: extract_int_def dw Let_def tk in_int_def
          del: takeWhile.simps dropWhile.simps)
  qed
qed

lemma extract_int_int_text:
  assumes g: "good str"
    and b: "buf str = ws @ int_text pl zeros x @ rest"
    and ws: "\<forall>c\<in>set ws. isspace c"
    and rest: "rest = [] \<or> \<not> isdigit (hd rest)"
    and x: "in_int x"
  shows "extract_int str v = (str\<lparr>buf := rest, eofbit := (rest = [])\<rparr>, word_of_int x)"
proof -
  obtain sg ds where s: "int_text pl zeros x = sg @ ds"
    and sg: "sg = [] \<or> sg = ''-'' \<or> sg = ''+''"
    and ne: "ds \<noteq> []" and ds: "\<forall>c\<in>set ds. isdigit c"
    and val: "(if sg = ''-'' then - decimal ds else decimal ds) = x"
    by (rule int_text_shape)
  have b': "buf str = ws @ sg @ ds @ rest" using b s by simp
  have x': "in_int (if sg = ''-'' then - decimal ds else decimal ds)"
    unfolding val by (rule x)
  show ?thesis
    using extract_int_token [OF g b' ws sg ne ds rest x'] unfolding val .
qed

subsection \<open>One pass through the loop body on a well-formed row\<close>

lemma sint_word_of_int_in_int:
  "in_int x \<Longrightarrow> sint (word_of_int x :: cint) = x"
  by (simp add: sint_sbintrunc' in_int_def INT_MIN_def INT_MAX_def signed_take_bit_int_eq_self)

lemma word_of_int_eq_0_in_int:
  assumes "in_int x"
  shows "(word_of_int x :: cint) = 0 \<longleftrightarrow> x = 0"
proof
  assume "(word_of_int x :: cint) = 0"
  then have "sint (word_of_int x :: cint) = 0" by simp
  then show "x = 0" using assms by (simp add: sint_word_of_int_in_int)
qed simp

lemma loop_body_row:
  assumes nl: "newline \<notin> set line"
    and line: "line = ws @ int_text p1 z1 i @ sep1 @ int_text p2 z2 m @ sep2 @
                 int_text p3 z3 n @ rest"
    and ws: "\<forall>c\<in>set ws. isspace c"
    and ne1: "sep1 \<noteq> []" and sp1: "\<forall>c\<in>set sep1. isspace c"
    and ne2: "sep2 \<noteq> []" and sp2: "\<forall>c\<in>set sep2. isspace c"
    and rest: "rest = [] \<or> \<not> isdigit (hd rest)"
    and i: "in_int i" and m: "in_int m" and n: "in_int n" and t: "in_int (m + n)"
  shows "loop_body line v =
     v\<lparr>index := word_of_int i, has_mutation_total := word_of_int m,
       has_no_mutation_total := word_of_int n, total_trios := word_of_int (m + n),
       probability := (if m + n = 0 then 0 else real_of_int m / real_of_int (m + n)),
       probabilities := probabilities v @
         [if m + n = 0 then 0 else real_of_int m / real_of_int (m + n)]\<rparr>"
proof -
  let ?r1 = "sep1 @ int_text p2 z2 m @ sep2 @ int_text p3 z3 n @ rest"
  let ?r2 = "sep2 @ int_text p3 z3 n @ rest"
  let ?s0 = "stringstream line"
  let ?s1 = "\<lparr>buf = ?r1, eofbit = False, failbit = False\<rparr>"
  let ?s2 = "\<lparr>buf = ?r2, eofbit = False, failbit = False\<rparr>"
  let ?s3 = "\<lparr>buf = rest, eofbit = (rest = []), failbit = False\<rparr>"
  have hd1: "\<not> isdigit (hd sep1)"
    using ne1 sp1 by (cases sep1) (auto dest: isspace_not_isdigit)
  have hd2: "\<not> isdigit (hd sep2)"
    using ne2 sp2 by (cases sep2) (auto dest: isspace_not_isdigit)
  have f: "filter (\<lambda>c. c \<noteq> newline) line = line"
    using nl by (auto simp: filter_id_conv)
  have e1: "extract_int ?s0 (index v) = (?s1, word_of_int i)"
  proof -
    have "extract_int ?s0 (index v) =
        (?s0\<lparr>buf := ?r1, eofbit := (?r1 = [])\<rparr>, word_of_int i)"
    proof (rule extract_int_int_text [where ws = ws])
      show "good ?s0" by (simp add: good_def stringstream_def)
      show "buf ?s0 = ws @ int_text p1 z1 i @ ?r1" by (simp add: line stringstream_def)
      show "\<forall>c\<in>set ws. isspace c" by (rule ws)
      show "?r1 = [] \<or> \<not> isdigit (hd ?r1)" using ne1 hd1 by simp
      show "in_int i" by (rule i)
    qed
    then show ?thesis using ne1 by (simp add: stringstream_def)
  qed
  have e2: "extract_int ?s1 (has_mutation_total v) = (?s2, word_of_int m)"
  proof -
    have "extract_int ?s1 (has_mutation_total v) =
        (?s1\<lparr>buf := ?r2, eofbit := (?r2 = [])\<rparr>, word_of_int m)"
    proof (rule extract_int_int_text [where ws = sep1])
      show "good ?s1" by (simp add: good_def)
      show "buf ?s1 = sep1 @ int_text p2 z2 m @ ?r2" by simp
      show "\<forall>c\<in>set sep1. isspace c" by (rule sp1)
      show "?r2 = [] \<or> \<not> isdigit (hd ?r2)" using ne2 hd2 by simp
      show "in_int m" by (rule m)
    qed
    then show ?thesis using ne2 by simp
  qed
  have e3: "extract_int ?s2 (has_no_mutation_total v) = (?s3, word_of_int n)"
  proof -
    have "extract_int ?s2 (has_no_mutation_total v) =
        (?s2\<lparr>buf := rest, eofbit := (rest = [])\<rparr>, word_of_int n)"
    proof (rule extract_int_int_text [where ws = sep2])
      show "good ?s2" by (simp add: good_def)
      show "buf ?s2 = sep2 @ int_text p3 z3 n @ rest" by simp
      show "\<forall>c\<in>set sep2. isspace c" by (rule sp2)
      show "rest = [] \<or> \<not> isdigit (hd rest)" by (rule rest)
      show "in_int n" by (rule n)
    qed
    then show ?thesis by simp
  qed
  have sum: "(word_of_int m :: cint) + word_of_int n = word_of_int (m + n)" by simp
  have p: "(if (word_of_int (m + n) :: cint) = 0 then 0
            else real_of_int (sint (word_of_int m :: cint)) /
                 real_of_int (sint (word_of_int (m + n) :: cint))) =
           (if m + n = 0 then 0 else real_of_int m / real_of_int (m + n))"
    unfolding word_of_int_eq_0_in_int [OF t] sint_word_of_int_in_int [OF m]
      sint_word_of_int_in_int [OF t] ..
  show ?thesis
    unfolding loop_body_def f Let_def e1 e2 e3 prod.case sum p ..
qed

subsection \<open>The loop over the lines of the file\<close>

lemma getline_line:
  assumes "newline \<notin> set l"
  shows "getline (l @ newline # rest) = Some (l, rest)"
proof -
  have "\<forall>c\<in>set l. c \<noteq> newline" using assms by auto
  then have "takeWhile (\<lambda>c. c \<noteq> newline) (l @ newline # rest) = l"
    and "dropWhile (\<lambda>c. c \<noteq> newline) (l @ newline # rest) = newline # rest"
    by simp_all
  then show ?thesis by (simp add: getline_def)
qed

lemma read_loop_Nil: "read_loop v [] = v"
  by (subst read_loop.simps) (simp add: getline_def)

lemma read_loop_line:
  "newline \<notin> set l \<Longrightarrow> read_loop v (l @ newline # rest) = read_loop (loop_body l v) rest"
  by (subst read_loop.simps) (simp add: getline_line)

lemma read_loop_getlines:
  "read_loop v fin = foldl (\<lambda>v l. loop_body l v) v (getlines fin)"
proof (induction v fin rule: read_loop.induct)
  case (1 v fin)
  show ?case
  proof (cases "getline fin")
    case None
    then show ?thesis
      by (subst read_loop.simps, subst getlines.simps) simp
  next
    case (Some a)
    obtain line rest where a: "a = (line, rest)" by (cases a)
    have "read_loop (loop_body line v) rest =
            foldl (\<lambda>v l. loop_body l v) (loop_body line v) (getlines rest)"
      using Some a by (intro "1.IH") simp_all
    then show ?thesis
      using Some a by (subst read_loop.simps, subst getlines.simps) simp
  qed
qed

lemma probabilities_loop_body:
  "probabilities (loop_body l v) = probabilities v @ [probability (loop_body l v)]"
  by (simp add: loop_body_def Let_def split: prod.splits)

lemma probabilities_foldl:
  "length (probabilities (foldl (\<lambda>v l. loop_body l v) v ls)) =
     length (probabilities v) + length ls \<and>
   (\<forall>k<length ls.
      probabilities (foldl (\<lambda>v l. loop_body l v) v ls) ! (length (probabilities v) + k) =
        probability (foldl (\<lambda>v l. loop_body l v) v (take (Suc k) ls)))"
proof (induction ls rule: rev_induct)
  case Nil
  then show ?case by simp
next
  case (snoc l ls)
  let ?f = "foldl (\<lambda>v l. loop_body l v) v"
  have len: "length (probabilities (?f ls)) = length (probabilities v) + length ls"
    using snoc.IH by blast
  have p: "probabilities (?f (ls @ [l])) = probabilities (?f ls) @ [probability (?f (ls @ [l]))]"
    by (simp add: probabilities_loop_body)
  show ?case
  proof (intro conjI allI impI)
    show "length (probabilities (?f (ls @ [l]))) = length (probabilities v) + length (ls @ [l])"
      using len by (simp only: p) simp
  next
    fix k assume k: "k < length (ls @ [l])"
    show "probabilities (?f (ls @ [l])) ! (length (probabilities v) + k) =
            probability (?f (take (Suc k) (ls @ [l])))"
    proof (cases "k < length ls")
      case True
      then have "probabilities (?f (ls @ [l])) ! (length (probabilities v) + k) =
          probabilities (?f ls) ! (length (probabilities v) + k)"
        using len by (simp only: p) (simp add: nth_append)
      also have "\<dots> = probability (?f (take (Suc k) ls))"
        using snoc.IH True by blast
      also have "take (Suc k) ls = take (Suc k) (ls @ [l])"
        using True by simp
      finally show ?thesis .
    next
      case False
      with k have kl: "k = length ls" by simp
      have "probabilities (?f (ls @ [l])) ! (length (probabilities v) + k) =
          probability (?f (ls @ [l]))"
        using len kl by (simp only: p) (simp add: nth_append)
      then show ?thesis using kl by simp
    qed
  qed
qed

lemma getlines_Nil: "getlines [] = []"
  by (subst getlines.simps) (simp add: getline_def)

lemma length_getlines:
  "length (getlines fin) =
     count_list fin newline + (if fin \<noteq> [] \<and> last fin \<noteq> newline then 1 else 0)"
proof (induction fin rule: getlines.induct)
  case (1 fin)
  show ?case
  proof (cases "fin = []")
    case True
    then show ?thesis by (simp add: getlines_Nil)
  next
    case False
    let ?l = "takeWhile (\<lambda>c. c \<noteq> newline) fin"
    let ?d = "dropWhile (\<lambda>c. c \<noteq> newline) fin"
    have g: "getline fin = Some (?l, drop 1 ?d)"
      using False by (simp add: getline_def)
    have gl: "getlines fin = ?l # getlines (drop 1 ?d)"
      by (subst getlines.simps) (simp add: g)
    have ih: "length (getlines (drop 1 ?d)) =
        count_list (drop 1 ?d) newline +
          (if drop 1 ?d \<noteq> [] \<and> last (drop 1 ?d) \<noteq> newline then 1 else 0)"
      using g by (intro "1.IH") simp_all
    have cl: "count_list ?l newline = 0"
      by (metis (mono_tags, lifting) count_list_0_iff set_takeWhileD)
    have split: "fin = ?l @ ?d" by simp
    show ?thesis
    proof (cases ?d)
      case Nil
      then have nn: "\<forall>x\<in>set fin. x \<noteq> newline" by simp
      then have "last fin \<noteq> newline" using False last_in_set by blast
      moreover have "count_list fin newline = 0" using nn by (auto simp: count_list_0_iff)
      ultimately show ?thesis using False gl Nil by (simp add: getlines_Nil)
    next
      case (Cons c rest)
      have c: "c = newline"
        using Cons by (metis (mono_tags, lifting) hd_dropWhile list.sel(1) list.distinct(1))
      have fin: "fin = ?l @ newline # rest" using split Cons c by simp
      have cnt: "count_list fin newline = Suc (count_list rest newline)"
        by (subst fin) (simp add: cl)
      have lst: "last fin = (if rest = [] then newline else last rest)"
        by (subst fin) simp
      show ?thesis using gl ih Cons cnt lst False by simp
    qed
  qed
qed


lemma getlines_no_newline: "l \<in> set (getlines fin) \<Longrightarrow> newline \<notin> set l"
proof (induction fin rule: getlines.induct)
  case (1 fin)
  show ?case
  proof (cases "fin = []")
    case True
    with "1.prems" show ?thesis by (simp add: getlines_Nil)
  next
    case False
    let ?l = "takeWhile (\<lambda>c. c \<noteq> newline) fin"
    let ?r = "drop 1 (dropWhile (\<lambda>c. c \<noteq> newline) fin)"
    have g: "getline fin = Some (?l, ?r)" using False by (simp add: getline_def)
    have gl: "getlines fin = ?l # getlines ?r"
      by (subst getlines.simps) (simp add: g)
    from "1.prems" gl consider "l = ?l" | "l \<in> set (getlines ?r)" by auto
    then show ?thesis
    proof cases
      case 1
      then show ?thesis using set_takeWhileD [of newline "\<lambda>c. c \<noteq> newline" fin] by auto
    next
      case 2
      then show ?thesis using g by (intro "1.IH") simp_all
    qed
  qed
qed

lemma counts_probability_nth:
  assumes "k < length (getlines fin)"
  shows "length (counts_probability fin) = length (getlines fin)"
    and "counts_probability fin ! k =
           probability (loop_body (getlines fin ! k)
             (foldl (\<lambda>v l. loop_body l v) initial_vars (take k (getlines fin))))"
proof -
  let ?f = "foldl (\<lambda>v l. loop_body l v) initial_vars"
  have cp: "counts_probability fin = probabilities (?f (getlines fin))"
    by (simp add: counts_probability_def read_loop_getlines)
  have p0: "length (probabilities initial_vars) = 0" by (simp add: initial_vars_def)
  note pf = probabilities_foldl [of initial_vars "getlines fin", unfolded p0]
  show "length (counts_probability fin) = length (getlines fin)"
    using pf by (simp add: cp)
  have "counts_probability fin ! k = probability (?f (take (Suc k) (getlines fin)))"
    using pf assms by (simp add: cp)
  also have "take (Suc k) (getlines fin) = take k (getlines fin) @ [getlines fin ! k]"
    using assms by (rule take_Suc_conv_app_nth)
  finally show "counts_probability fin ! k =
      probability (loop_body (getlines fin ! k) (?f (take k (getlines fin))))"
    by simp
qed

subsection \<open>Lines whose extraction fails\<close>

lemma extract_int_not_good: "\<not> good str \<Longrightarrow> extract_int str x = (str\<lparr>failbit := True\<rparr>, x)"
  by (simp add: extract_int_def)

lemma loop_body_consistent:
  "probability (loop_body l v) =
     (if has_mutation_total (loop_body l v) + has_no_mutation_total (loop_body l v) = 0 then 0
      else real_of_int (sint (has_mutation_total (loop_body l v))) /
           real_of_int (sint (has_mutation_total (loop_body l v) +
                              has_no_mutation_total (loop_body l v))))"
  by (simp add: loop_body_def Let_def split: prod.splits)

lemma loop_body_index_fails:
  assumes "failbit (fst (extract_int (stringstream (filter (\<lambda>c. c \<noteq> newline) line)) (index w)))"
  shows "has_mutation_total (loop_body line w) = has_mutation_total w"
    and "has_no_mutation_total (loop_body line w) = has_no_mutation_total w"
    and "probability (loop_body line w) =
           (if has_mutation_total w + has_no_mutation_total w = 0 then 0
            else real_of_int (sint (has_mutation_total w)) /
                 real_of_int (sint (has_mutation_total w + has_no_mutation_total w)))"
proof -
  obtain str1 i where e1:
    "extract_int (stringstream (filter (\<lambda>c. c \<noteq> newline) line)) (index w) = (str1, i)"
    by (cases "extract_int (stringstream (filter (\<lambda>c. c \<noteq> newline) line)) (index w)")
  with assms have f1: "failbit str1" by simp
  then have e2: "extract_int str1 (has_mutation_total w) =
      (str1\<lparr>failbit := True\<rparr>, has_mutation_total w)"
    by (intro extract_int_not_good) (simp add: good_def)
  have e3: "extract_int (str1\<lparr>failbit := True\<rparr>) (has_no_mutation_total w) =
      (str1\<lparr>failbit := True, failbit := True\<rparr>, has_no_mutation_total w)"
    by (intro extract_int_not_good) (simp add: good_def)
  show "has_mutation_total (loop_body line w) = has_mutation_total w"
    by (simp add: loop_body_def Let_def e1 e2 e3)
  show "has_no_mutation_total (loop_body line w) = has_no_mutation_total w"
    by (simp add: loop_body_def Let_def e1 e2 e3)
  show "probability (loop_body line w) =
           (if has_mutation_total w + has_no_mutation_total w = 0 then 0
            else real_of_int (sint (has_mutation_total w)) /
                 real_of_int (sint (has_mutation_total w + has_no_mutation_total w)))"
    by (simp add: loop_body_def Let_def e1 e2 e3)
qed

lemma extract_int_kept:
  assumes "\<not> good str \<or> dropWhile isspace (buf str) = []"
  shows "snd (extract_int str x) = x" and "failbit (fst (extract_int str x))"
proof -
  have "snd (extract_int str x) = x \<and> failbit (fst (extract_int str x))"
  proof (cases "good str")
    case False
    then show ?thesis by (simp add: extract_int_def)
  next
    case True
    with assms have dw: "dropWhile isspace (buf str) = []" by blast
    show ?thesis
      using True by (simp add: extract_int_def dw del: dropWhile_eq_Nil_conv)
  qed
  then show "snd (extract_int str x) = x" and "failbit (fst (extract_int str x))"
    by blast+
qed

lemma extract_int_good:
  assumes "good str" and dw: "dropWhile isspace (buf str) = c # cs"
    and r1: "r1 = (if c = CHR ''-'' \<or> c = CHR ''+'' then cs else c # cs)"
    and ds: "ds = takeWhile isdigit r1"
    and n: "n = (if c = CHR ''-'' then - decimal ds else decimal ds)"
  shows "extract_int str x =
     (if ds = [] then
        (str\<lparr>buf := dropWhile isdigit r1, eofbit := (dropWhile isdigit r1 = []),
             failbit := True\<rparr>, 0)
      else if n < INT_MIN then
        (str\<lparr>buf := dropWhile isdigit r1, eofbit := (dropWhile isdigit r1 = []),
             failbit := True\<rparr>, word_of_int INT_MIN)
      else if INT_MAX < n then
        (str\<lparr>buf := dropWhile isdigit r1, eofbit := (dropWhile isdigit r1 = []),
             failbit := True\<rparr>, word_of_int INT_MAX)
      else (str\<lparr>buf := dropWhile isdigit r1, eofbit := (dropWhile isdigit r1 = [])\<rparr>,
            word_of_int n))"
  unfolding extract_int_def dw list.case Let_def r1 [symmetric] ds [symmetric] n [symmetric]
  using assms(1) by simp

lemma extract_int_no_digit:
  assumes "good str" and "dropWhile isspace (buf str) = c # cs"
    and "takeWhile isdigit (if c = CHR ''-'' \<or> c = CHR ''+'' then cs else c # cs) = []"
  shows "snd (extract_int str x) = 0" and "failbit (fst (extract_int str x))"
proof -
  note e = extract_int_good [OF assms(1,2) refl assms(3) [symmetric] refl, of x]
  show "snd (extract_int str x) = 0" unfolding e by simp
  show "failbit (fst (extract_int str x))" unfolding e by simp
qed

lemma extract_int_number:
  assumes "good str" and "dropWhile isspace (buf str) = c # cs"
    and "takeWhile isdigit (if c = CHR ''-'' \<or> c = CHR ''+'' then cs else c # cs) = ds"
    and "ds \<noteq> []"
    and "n = (if c = CHR ''-'' then - decimal ds else decimal ds)"
  shows "snd (extract_int str x) = word_of_int (max INT_MIN (min INT_MAX n))"
    and "failbit (fst (extract_int str x)) = (\<not> in_int n)"
proof -
  note e = extract_int_good [OF assms(1,2) refl assms(3) [symmetric] assms(5), of x]
  have mm: "max INT_MIN (min INT_MAX n) =
      (if n < INT_MIN then INT_MIN else if INT_MAX < n then INT_MAX else n)"
    by (simp add: INT_MIN_def INT_MAX_def max_def min_def)
  show "snd (extract_int str x) = word_of_int (max INT_MIN (min INT_MAX n))"
    unfolding e mm using assms(4) by simp
  have nf: "\<not> failbit str" using assms(1) by (simp add: good_def)
  show "failbit (fst (extract_int str x)) = (\<not> in_int n)"
    unfolding e using assms(4) nf by (auto simp: in_int_def)
qed

lemma loop_body_extractions:
  assumes "extract_int (stringstream (filter (\<lambda>c. c \<noteq> newline) line)) (index v) = (s1, i)"
    and "extract_int s1 (has_mutation_total v) = (s2, m)"
    and "extract_int s2 (has_no_mutation_total v) = (s3, n)"
  shows "loop_body line v =
     v\<lparr>index := i, has_mutation_total := m, has_no_mutation_total := n, total_trios := m + n,
       probability :=
         (if m + n = 0 then 0 else real_of_int (sint m) / real_of_int (sint (m + n))),
       probabilities := probabilities v @
         [if m + n = 0 then 0 else real_of_int (sint m) / real_of_int (sint (m + n))]\<rparr>"
  using assms by (simp add: loop_body_def Let_def)

subsection \<open>The claims\<close>

text \<open>
  Claim C2, as amended. Take any file and any of its lines that is a row \<open>i m n\<close>: three
  integers in decimal (a minus sign for a negative one, optionally a plus sign for the
  others, leading zeros allowed), the first possibly after white space, the next two each
  after a non-empty run of white space, and after the third the end of the line or a
  character that is not a digit. If \<open>i\<close>, \<open>m\<close>, \<open>n\<close> and \<open>m + n\<close> are values of the type
  \<open>int\<close>, the value the utility emits for this line is \<open>m / (m + n)\<close>, and 0 when
  \<open>m + n = 0\<close>, whatever the other lines of the file are and whether or not the last line
  ends with a newline. The rows \<open>(0, 10, 90)\<close> and \<open>(1, 0, 0)\<close> yield \<open>1/10\<close> and \<open>0\<close>.
\<close>

theorem counts_probability_rows:
  assumes "k < length (getlines fin)"
    and "getlines fin ! k =
           ws @ int_text p1 z1 i @ sep1 @ int_text p2 z2 m @ sep2 @ int_text p3 z3 n @ rest"
    and "\<forall>c\<in>set ws. isspace c"
    and "sep1 \<noteq> []" and "\<forall>c\<in>set sep1. isspace c"
    and "sep2 \<noteq> []" and "\<forall>c\<in>set sep2. isspace c"
    and "rest = [] \<or> \<not> isdigit (hd rest)"
    and "in_int i" and "in_int m" and "in_int n" and "in_int (m + n)"
  shows "length (counts_probability fin) = length (getlines fin) \<and>
         counts_probability fin ! k =
           (if m + n = 0 then 0 else real_of_int m / real_of_int (m + n))"
proof -
  have "getlines fin ! k \<in> set (getlines fin)" using assms(1) by simp
  then have nl: "newline \<notin> set (getlines fin ! k)" by (rule getlines_no_newline)
  have "probability (loop_body (getlines fin ! k)
          (foldl (\<lambda>v l. loop_body l v) initial_vars (take k (getlines fin)))) =
        (if m + n = 0 then 0 else real_of_int m / real_of_int (m + n))"
    unfolding loop_body_row [OF nl assms(2-12)] by simp
  then show ?thesis
    using counts_probability_nth [OF assms(1)] by simp
qed

text \<open>
  The two rows of the specification's cross-check, and a file of three lines whose first
  line is out of range and whose last line has no newline: the second and third lines yield
  \<open>1/10\<close> and \<open>1/4\<close>. The line \<open>  +07 -2   005;\<close> yields \<open>-2/3\<close>.
\<close>

theorem counts_probability_rows_witness:
  "counts_probability (''0 10 90'' @ [newline] @ ''1 0 0'' @ [newline]) ! 0 = 1 / 10 \<and>
   counts_probability (''0 10 90'' @ [newline] @ ''1 0 0'' @ [newline]) ! 1 = 0 \<and>
   counts_probability (''0 3000000000 1'' @ [newline] @ ''1 10 90'' @ [newline] @ ''0 1 3'') ! 1 =
     1 / 10 \<and>
   counts_probability (''0 3000000000 1'' @ [newline] @ ''1 10 90'' @ [newline] @ ''0 1 3'') ! 2 =
     1 / 4 \<and>
   counts_probability (''  +07 -2   005;'' @ [newline]) ! 0 = - 2 / 3"
proof -
  let ?H = "''  +07 -2   005;'' @ [newline]"
  let ?F = "''0 10 90'' @ [newline] @ ''1 0 0'' @ [newline]"
  let ?G = "''0 3000000000 1'' @ [newline] @ ''1 10 90'' @ [newline] @ ''0 1 3''"
  have sp: "'' '' \<noteq> []" "\<forall>c\<in>set '' ''. isspace c" "\<forall>c\<in>set ''''. isspace c"
    "[] = [] \<or> \<not> isdigit (hd [])"
    by (simp_all add: isspace_def)
  have r: "in_int 0" "in_int 1" "in_int 3" "in_int 10" "in_int 90" "in_int (10 + 90)"
    "in_int (0 + 0)" "in_int (1 + 3)"
    by (simp_all add: in_int_def INT_MIN_def INT_MAX_def)
  have gF: "getlines ?F = [''0 10 90'', ''1 0 0'']" by code_simp
  have gG: "getlines ?G = [''0 3000000000 1'', ''1 10 90'', ''0 1 3'']" by code_simp
  have kF: "0 < length (getlines ?F)" "1 < length (getlines ?F)" unfolding gF by simp_all
  have kG: "1 < length (getlines ?G)" "2 < length (getlines ?G)" unfolding gG by simp_all
  have t1: "''0 10 90'' = '''' @ int_text False 0 0 @ '' '' @ int_text False 0 10 @ '' '' @
      int_text False 0 90 @ []"
    by code_simp
  have t2: "''1 0 0'' = '''' @ int_text False 0 1 @ '' '' @ int_text False 0 0 @ '' '' @
      int_text False 0 0 @ []"
    by code_simp
  have t3: "''1 10 90'' = '''' @ int_text False 0 1 @ '' '' @ int_text False 0 10 @ '' '' @
      int_text False 0 90 @ []"
    by code_simp
  have t4: "''0 1 3'' = '''' @ int_text False 0 0 @ '' '' @ int_text False 0 1 @ '' '' @
      int_text False 0 3 @ []"
    by code_simp
  have l1: "getlines ?F ! 0 = '''' @ int_text False 0 0 @ '' '' @ int_text False 0 10 @ '' '' @
      int_text False 0 90 @ []"
    unfolding gF using t1 by simp
  have l2: "getlines ?F ! 1 = '''' @ int_text False 0 1 @ '' '' @ int_text False 0 0 @ '' '' @
      int_text False 0 0 @ []"
    unfolding gF using t2 by simp
  have l3: "getlines ?G ! 1 = '''' @ int_text False 0 1 @ '' '' @ int_text False 0 10 @ '' '' @
      int_text False 0 90 @ []"
    unfolding gG using t3 by simp
  have l4: "getlines ?G ! 2 = '''' @ int_text False 0 0 @ '' '' @ int_text False 0 1 @ '' '' @
      int_text False 0 3 @ []"
    unfolding gG using t4 by simp
  have 1: "counts_probability ?F ! 0 = 1 / 10"
    using counts_probability_rows
      [OF kF(1) l1 sp(3) sp(1) sp(2) sp(1) sp(2) sp(4) r(1) r(4) r(5) r(6)]
    by simp
  have 2: "counts_probability ?F ! 1 = 0"
    using counts_probability_rows
      [OF kF(2) l2 sp(3) sp(1) sp(2) sp(1) sp(2) sp(4) r(2) r(1) r(1) r(7)]
    by simp
  have 3: "counts_probability ?G ! 1 = 1 / 10"
    using counts_probability_rows
      [OF kG(1) l3 sp(3) sp(1) sp(2) sp(1) sp(2) sp(4) r(2) r(4) r(5) r(6)]
    by simp
  have 4: "counts_probability ?G ! 2 = 1 / 4"
    using counts_probability_rows
      [OF kG(2) l4 sp(3) sp(1) sp(2) sp(1) sp(2) sp(4) r(1) r(2) r(3) r(8)]
    by simp
  have gH: "getlines ?H = [''  +07 -2   005;'']" by code_simp
  have kH: "0 < length (getlines ?H)" unfolding gH by simp
  have t5: "''  +07 -2   005;'' = ''  '' @ int_text True 1 7 @ '' '' @ int_text False 0 (- 2) @
      ''   '' @ int_text False 2 5 @ '';''"
    by code_simp
  have l5: "getlines ?H ! 0 = ''  '' @ int_text True 1 7 @ '' '' @ int_text False 0 (- 2) @
      ''   '' @ int_text False 2 5 @ '';''"
    unfolding gH using t5 by simp
  have sp5: "\<forall>c\<in>set ''  ''. isspace c" "''   '' \<noteq> []" "\<forall>c\<in>set ''   ''. isspace c"
    "'';'' = [] \<or> \<not> isdigit (hd '';'')"
    by (simp_all add: isspace_def isdigit_def)
  have r5: "in_int 7" "in_int (- 2)" "in_int 5" "in_int (- 2 + 5)"
    by (simp_all add: in_int_def INT_MIN_def INT_MAX_def)
  have 5: "counts_probability ?H ! 0 = - 2 / 3"
    using counts_probability_rows
      [OF kH l5 sp5(1) sp(1) sp(2) sp5(2) sp5(3) sp5(4) r5(1) r5(2) r5(3) r5(4)]
    by simp
  show ?thesis using 1 2 3 4 5 by (simp only:)
qed

text \<open>
  Claim C2 as stated, for every row, fails where a count does not fit the type \<open>int\<close>.
  On the row \<open>0 3000000000 3000000000\<close> the extraction of the second column stores the
  largest \<open>int\<close> and sets \<open>failbit\<close>, the third column is then not read and stays 0, and
  the utility emits 1 where \<open>m / (m + n)\<close> is \<open>1/2\<close>. On the row
  \<open>0 1073741824 1073741824\<close> both counts fit, the sum of line 62 does not and wraps to
  the least \<open>int\<close>, and the value emitted is \<open>-1/2\<close>.
\<close>

theorem counts_probability_row_out_of_int:
  "counts_probability (''0 3000000000 3000000000'' @ [newline]) = [1] \<and>
   (1 :: real) \<noteq> 3000000000 / (3000000000 + 3000000000) \<and>
   counts_probability (''0 1073741824 1073741824'' @ [newline]) = [- 1 / 2] \<and>
   (- 1 / 2 :: real) \<noteq> 1073741824 / (1073741824 + 1073741824)"
proof -
  have 1: "counts_probability (''0 3000000000 3000000000'' @ [newline]) = [1]"
    by code_simp
  have 2: "counts_probability (''0 1073741824 1073741824'' @ [newline]) = [- 1 / 2]"
    by code_simp
  show ?thesis using 1 2 by simp
qed

text \<open>
  Claim C9, as amended. The utility emits exactly one value per line of its input, in the
  order of the lines, also for the lines that fail numeric parsing: the number of values is
  the number of lines (the newlines of the file, and one more when its last character is
  not a newline), and the \<open>k\<close>-th value is the probability computed by the loop body at
  the \<open>k\<close>-th line. That body makes three extractions from one stream, in the order index,
  count with mutation, count without mutation, and computes the probability from the two
  counts as they are afterwards. A failing line does not set all counts to 0. An
  extraction stores nothing and sets \<open>failbit\<close>, so that its variable keeps the value the
  line before left in it, when the stream is no longer good (an earlier extraction of the
  line failed, or reached the end of the line) or when only white space is left. An
  extraction that finds no digit after the white space and an optional sign stores 0 and
  sets \<open>failbit\<close>. An extraction that finds digits stores their value, brought into the
  range of \<open>int\<close>, and sets \<open>failbit\<close> exactly when the value was outside the range. In
  particular, when the extraction of the index fails, both counts are kept and the
  probability of the line before is emitted once more, or 0 on the first line.
\<close>

theorem one_probability_per_line:
  "length (counts_probability fin) = length (getlines fin) \<and>
   length (getlines fin) =
     count_list fin newline + (if fin \<noteq> [] \<and> last fin \<noteq> newline then 1 else 0) \<and>
   (\<forall>k<length (getlines fin).
      counts_probability fin ! k =
        probability (foldl (\<lambda>v l. loop_body l v) initial_vars (take (Suc k) (getlines fin)))) \<and>
   (\<forall>line v s1 i s2 m s3 n.
      extract_int (stringstream (filter (\<lambda>c. c \<noteq> newline) line)) (index v) = (s1, i) \<and>
      extract_int s1 (has_mutation_total v) = (s2, m) \<and>
      extract_int s2 (has_no_mutation_total v) = (s3, n) \<longrightarrow>
      loop_body line v =
        v\<lparr>index := i, has_mutation_total := m, has_no_mutation_total := n,
          total_trios := m + n,
          probability :=
            (if m + n = 0 then 0 else real_of_int (sint m) / real_of_int (sint (m + n))),
          probabilities := probabilities v @
            [if m + n = 0 then 0 else real_of_int (sint m) / real_of_int (sint (m + n))]\<rparr>) \<and>
   (\<forall>str x.
      \<not> good str \<or> dropWhile isspace (buf str) = [] \<longrightarrow>
      snd (extract_int str x) = x \<and> failbit (fst (extract_int str x))) \<and>
   (\<forall>str x c cs.
      good str \<and> dropWhile isspace (buf str) = c # cs \<and>
      takeWhile isdigit (if c = CHR ''-'' \<or> c = CHR ''+'' then cs else c # cs) = [] \<longrightarrow>
      snd (extract_int str x) = 0 \<and> failbit (fst (extract_int str x))) \<and>
   (\<forall>str x c cs ds n.
      good str \<and> dropWhile isspace (buf str) = c # cs \<and>
      takeWhile isdigit (if c = CHR ''-'' \<or> c = CHR ''+'' then cs else c # cs) = ds \<and>
      ds \<noteq> [] \<and> n = (if c = CHR ''-'' then - decimal ds else decimal ds) \<longrightarrow>
      snd (extract_int str x) = word_of_int (max INT_MIN (min INT_MAX n)) \<and>
      failbit (fst (extract_int str x)) = (\<not> in_int n)) \<and>
   (\<forall>line prev v.
      failbit (fst (extract_int (stringstream (filter (\<lambda>c. c \<noteq> newline) line))
                      (index (loop_body prev v)))) \<longrightarrow>
      has_mutation_total (loop_body line (loop_body prev v)) =
        has_mutation_total (loop_body prev v) \<and>
      has_no_mutation_total (loop_body line (loop_body prev v)) =
        has_no_mutation_total (loop_body prev v) \<and>
      probability (loop_body line (loop_body prev v)) = probability (loop_body prev v)) \<and>
   (\<forall>line.
      failbit (fst (extract_int (stringstream (filter (\<lambda>c. c \<noteq> newline) line))
                      (index initial_vars))) \<longrightarrow>
      probability (loop_body line initial_vars) = 0)"
proof (intro conjI allI impI)
  let ?f = "foldl (\<lambda>v l. loop_body l v) initial_vars"
  have cp: "counts_probability fin = probabilities (?f (getlines fin))"
    by (simp add: counts_probability_def read_loop_getlines)
  have p0: "length (probabilities initial_vars) = 0" by (simp add: initial_vars_def)
  note pf = probabilities_foldl [of initial_vars "getlines fin", unfolded p0]
  show "length (counts_probability fin) = length (getlines fin)"
    using pf by (simp add: cp)
  show "length (getlines fin) =
     count_list fin newline + (if fin \<noteq> [] \<and> last fin \<noteq> newline then 1 else 0)"
    by (rule length_getlines)
  show "counts_probability fin ! k = probability (?f (take (Suc k) (getlines fin)))"
    if "k < length (getlines fin)" for k
    using pf that by (simp add: cp)
next
  fix line and v :: vars and s1 i s2 m s3 n
  assume "extract_int (stringstream (filter (\<lambda>c. c \<noteq> newline) line)) (index v) = (s1, i) \<and>
      extract_int s1 (has_mutation_total v) = (s2, m) \<and>
      extract_int s2 (has_no_mutation_total v) = (s3, n)"
  then show "loop_body line v =
        v\<lparr>index := i, has_mutation_total := m, has_no_mutation_total := n,
          total_trios := m + n,
          probability :=
            (if m + n = 0 then 0 else real_of_int (sint m) / real_of_int (sint (m + n))),
          probabilities := probabilities v @
            [if m + n = 0 then 0 else real_of_int (sint m) / real_of_int (sint (m + n))]\<rparr>"
    by (intro loop_body_extractions) blast+
next
  fix str :: sstream and x :: cint
  assume a: "\<not> good str \<or> dropWhile isspace (buf str) = []"
  show "snd (extract_int str x) = x" using a by (rule extract_int_kept)
  show "failbit (fst (extract_int str x))" using a by (rule extract_int_kept)
next
  fix str :: sstream and x :: cint and c cs
  assume a: "good str \<and> dropWhile isspace (buf str) = c # cs \<and>
      takeWhile isdigit (if c = CHR ''-'' \<or> c = CHR ''+'' then cs else c # cs) = []"
  then have g: "good str" and dw: "dropWhile isspace (buf str) = c # cs"
    and tk: "takeWhile isdigit (if c = CHR ''-'' \<or> c = CHR ''+'' then cs else c # cs) = []"
    by blast+
  show "snd (extract_int str x) = 0" using g dw tk by (rule extract_int_no_digit)
  show "failbit (fst (extract_int str x))" using g dw tk by (rule extract_int_no_digit)
next
  fix str :: sstream and x :: cint and c cs ds n
  assume a: "good str \<and> dropWhile isspace (buf str) = c # cs \<and>
      takeWhile isdigit (if c = CHR ''-'' \<or> c = CHR ''+'' then cs else c # cs) = ds \<and>
      ds \<noteq> [] \<and> n = (if c = CHR ''-'' then - decimal ds else decimal ds)"
  then have g: "good str" and dw: "dropWhile isspace (buf str) = c # cs"
    and tk: "takeWhile isdigit (if c = CHR ''-'' \<or> c = CHR ''+'' then cs else c # cs) = ds"
    and ne: "ds \<noteq> []" and n: "n = (if c = CHR ''-'' then - decimal ds else decimal ds)"
    by blast+
  show "snd (extract_int str x) = word_of_int (max INT_MIN (min INT_MAX n))"
    using g dw tk ne n by (rule extract_int_number)
  show "failbit (fst (extract_int str x)) = (\<not> in_int n)"
    using g dw tk ne n by (rule extract_int_number)
next
  fix line prev v
  assume f: "failbit (fst (extract_int (stringstream (filter (\<lambda>c. c \<noteq> newline) line))
                      (index (loop_body prev v))))"
  show "has_mutation_total (loop_body line (loop_body prev v)) =
        has_mutation_total (loop_body prev v)"
    using f by (rule loop_body_index_fails)
  show "has_no_mutation_total (loop_body line (loop_body prev v)) =
        has_no_mutation_total (loop_body prev v)"
    using f by (rule loop_body_index_fails)
  show "probability (loop_body line (loop_body prev v)) = probability (loop_body prev v)"
    unfolding loop_body_index_fails(3) [OF f] by (rule loop_body_consistent [symmetric])
next
  fix line
  assume f: "failbit (fst (extract_int (stringstream (filter (\<lambda>c. c \<noteq> newline) line))
                      (index initial_vars)))"
  show "probability (loop_body line initial_vars) = 0"
    unfolding loop_body_index_fails(3) [OF f] by (simp add: initial_vars_def)
qed

text \<open>
  The amended claim on the file of the lines \<open>0 1 1\<close> and \<open>1 x 5\<close>, whose second line
  zeroes the count with mutation and keeps the other, on extractions from the streams that
  line goes through, on a number out of range, and on the line \<open>x\<close> after \<open>0 10 90\<close> and
  as a first line.
\<close>

theorem one_probability_per_line_witness:
  "length (counts_probability (''0 1 1'' @ [newline] @ ''1 x 5'' @ [newline])) = 2 \<and>
   counts_probability (''0 1 1'' @ [newline] @ ''1 x 5'' @ [newline]) ! 1 = 0 \<and>
   loop_body ''1 x 5''
       \<lparr>index = 0, has_mutation_total = 1, has_no_mutation_total = 1, total_trios = 2,
          probability = 1 / 2, probabilities = [1 / 2]\<rparr> =
     \<lparr>index = 1, has_mutation_total = 0, has_no_mutation_total = 1, total_trios = 1,
        probability = 0, probabilities = [1 / 2, 0]\<rparr> \<and>
   snd (extract_int \<lparr>buf = ''x 5'', eofbit = False, failbit = True\<rparr> 1) = 1 \<and>
   snd (extract_int \<lparr>buf = '' x 5'', eofbit = False, failbit = False\<rparr> 1) = 0 \<and>
   failbit (fst (extract_int \<lparr>buf = '' x 5'', eofbit = False, failbit = False\<rparr> 1)) \<and>
   snd (extract_int \<lparr>buf = '' 3000000000'', eofbit = False, failbit = False\<rparr> 0) =
     2147483647 \<and>
   failbit (fst (extract_int \<lparr>buf = '' 3000000000'', eofbit = False, failbit = False\<rparr> 0)) \<and>
   probability (loop_body ''x'' (loop_body ''0 10 90'' initial_vars)) = 1 / 10 \<and>
   probability (loop_body ''x'' initial_vars) = 0"
proof -
  let ?F = "''0 1 1'' @ [newline] @ ''1 x 5'' @ [newline]"
  let ?V = "\<lparr>index = 0, has_mutation_total = 1, has_no_mutation_total = 1, total_trios = 2,
          probability = 1 / 2, probabilities = [1 / 2]\<rparr>"
  let ?S1 = "\<lparr>buf = '' x 5'', eofbit = False, failbit = False\<rparr>"
  let ?S2 = "\<lparr>buf = ''x 5'', eofbit = False, failbit = True\<rparr>"
  let ?B = "\<lparr>buf = '' 3000000000'', eofbit = False, failbit = False\<rparr>"
  note t = one_probability_per_line [of ?F]
  note c1 = t [THEN conjunct1]
  note c3 = t [THEN conjunct2, THEN conjunct2, THEN conjunct1, rule_format]
  note r4 = t [THEN conjunct2, THEN conjunct2, THEN conjunct2]
  note c4 = r4 [THEN conjunct1, rule_format]
  note c5 = r4 [THEN conjunct2, THEN conjunct1, rule_format]
  note c6 = r4 [THEN conjunct2, THEN conjunct2, THEN conjunct1, rule_format]
  note r7 = r4 [THEN conjunct2, THEN conjunct2, THEN conjunct2]
  note c7 = r7 [THEN conjunct1, rule_format]
  note c8 = r7 [THEN conjunct2, THEN conjunct1, rule_format]
  note c9 = r7 [THEN conjunct2, THEN conjunct2, rule_format]
  have g: "getlines ?F = [''0 1 1'', ''1 x 5'']" by code_simp
  have w1: "length (counts_probability ?F) = 2" using c1 unfolding g by simp
  have k: "1 < length (getlines ?F)" unfolding g by simp
  have ev: "probability (foldl (\<lambda>v l. loop_body l v) initial_vars
      (take (Suc 1) [''0 1 1'', ''1 x 5''])) = 0"
    by code_simp
  have w2: "counts_probability ?F ! 1 = 0"
    using c3 [OF k] unfolding g ev .
  have e1: "extract_int (stringstream (filter (\<lambda>c. c \<noteq> newline) ''1 x 5'')) (index ?V) =
      (?S1, 1)"
    by code_simp
  have e2: "extract_int ?S1 (has_mutation_total ?V) = (?S2, 0)" by code_simp
  have e3: "extract_int ?S2 (has_no_mutation_total ?V) = (?S2, 1)" by code_simp
  have "loop_body ''1 x 5'' ?V =
      ?V\<lparr>index := 1, has_mutation_total := 0, has_no_mutation_total := 1,
        total_trios := 0 + 1,
        probability :=
          (if (0 :: cint) + 1 = 0 then 0
           else real_of_int (sint (0 :: cint)) / real_of_int (sint ((0 :: cint) + 1))),
        probabilities := probabilities ?V @
          [if (0 :: cint) + 1 = 0 then 0
           else real_of_int (sint (0 :: cint)) / real_of_int (sint ((0 :: cint) + 1))]\<rparr>"
    by (rule c4 [OF conjI [OF e1 conjI [OF e2 e3]]])
  then have w3: "loop_body ''1 x 5'' ?V =
     \<lparr>index = 1, has_mutation_total = 0, has_no_mutation_total = 1, total_trios = 1,
        probability = 0, probabilities = [1 / 2, 0]\<rparr>"
    by simp
  have ng: "\<not> good ?S2" by (simp add: good_def)
  have w4: "snd (extract_int ?S2 1) = 1"
    using c5 [OF disjI1 [OF ng], of 1] by blast
  have g1: "good ?S1" by (simp add: good_def)
  have dw1: "dropWhile isspace (buf ?S1) = CHR ''x'' # '' 5''" by code_simp
  have tk1: "takeWhile isdigit
      (if CHR ''x'' = CHR ''-'' \<or> CHR ''x'' = CHR ''+'' then '' 5'' else CHR ''x'' # '' 5'') = []"
    by code_simp
  have w5: "snd (extract_int ?S1 1) = 0 \<and> failbit (fst (extract_int ?S1 1))"
    by (rule c6 [OF conjI [OF g1 conjI [OF dw1 tk1]]])
  have gb: "good ?B" by (simp add: good_def)
  have dwb: "dropWhile isspace (buf ?B) = CHR ''3'' # ''000000000''" by code_simp
  have tkb: "takeWhile isdigit
      (if CHR ''3'' = CHR ''-'' \<or> CHR ''3'' = CHR ''+'' then ''000000000''
       else CHR ''3'' # ''000000000'') = ''3000000000''"
    by code_simp
  have neb: "''3000000000'' \<noteq> []" by simp
  have nb: "(3000000000 :: int) =
      (if CHR ''3'' = CHR ''-'' then - decimal ''3000000000'' else decimal ''3000000000'')"
    by code_simp
  have "snd (extract_int ?B 0) = word_of_int (max INT_MIN (min INT_MAX 3000000000)) \<and>
      failbit (fst (extract_int ?B 0)) = (\<not> in_int 3000000000)"
    by (rule c7 [OF conjI [OF gb conjI [OF dwb conjI [OF tkb conjI [OF neb nb]]]]])
  then have w6: "snd (extract_int ?B 0) = 2147483647 \<and> failbit (fst (extract_int ?B 0))"
    by (simp add: INT_MIN_def INT_MAX_def in_int_def)
  have f1: "failbit (fst (extract_int (stringstream (filter (\<lambda>c. c \<noteq> newline) ''x''))
                   (index (loop_body ''0 10 90'' initial_vars))))"
    by code_simp
  have f0: "failbit (fst (extract_int (stringstream (filter (\<lambda>c. c \<noteq> newline) ''x''))
                   (index initial_vars)))"
    by code_simp
  have p: "probability (loop_body ''0 10 90'' initial_vars) = 1 / 10" by code_simp
  have w7: "probability (loop_body ''x'' (loop_body ''0 10 90'' initial_vars)) = 1 / 10"
    using c8 [OF f1] p by simp
  have w8: "probability (loop_body ''x'' initial_vars) = 0"
    by (rule c9 [OF f0])
  show ?thesis using w1 w2 w3 w4 w5 w6 w7 w8 by (simp only:)
qed

text \<open>
  Claim C9 as stated fails on the file of the two lines \<open>0 10 90\<close> and \<open>x\<close>: the second
  line fails numeric parsing, the counts are still 10 and 90 after it, and the value emitted
  for it is \<open>1/10\<close>, not 0.
\<close>

theorem failed_line_repeats_previous:
  "counts_probability (''0 10 90'' @ [newline] @ ''x'' @ [newline]) = [1 / 10, 1 / 10] \<and>
   has_mutation_total (read_loop initial_vars (''0 10 90'' @ [newline] @ ''x'' @ [newline])) = 10 \<and>
   has_no_mutation_total (read_loop initial_vars (''0 10 90'' @ [newline] @ ''x'' @ [newline])) = 90"
  by code_simp

end
